theory Spec2Isabelle
  imports Main
begin

section \<open>Strings and JSON values\<close>

text \<open>
  A JavaScript string is modelled as a \<^typ>\<open>string\<close>, one \<^typ>\<open>char\<close> per code unit
  (code units up to 255). \<open>isWhitespace\<close> is the class \<^verbatim>\<open>\s\<close> of regular expressions
  and of \<^verbatim>\<open>String.prototype.trim\<close> on these code units: tab, line feed, vertical
  tab, form feed, carriage return, space and no-break space.
\<close>

definition isWhitespace :: "char \<Rightarrow> bool" where
  "isWhitespace c \<longleftrightarrow>
     c \<in> set [CHR 0x09, CHR 0x0A, CHR 0x0B, CHR 0x0C, CHR 0x0D, CHR 0x20, CHR 0xA0]"

text \<open>\<^verbatim>\<open>s.trim()\<close>: whitespace removed at both ends.\<close>

definition trim :: "string \<Rightarrow> string" where
  "trim s = rev (dropWhile isWhitespace (rev (dropWhile isWhitespace s)))"

text \<open>
  \<^verbatim>\<open>s.split(/\s+/).length\<close>: the pieces are separated by the maximal runs of
  whitespace, so there is one piece more than there are runs (a run at either end leaves
  an empty piece; the empty string gives the single piece \<^verbatim>\<open>""\<close>).
\<close>

fun whitespaceRuns :: "bool \<Rightarrow> string \<Rightarrow> nat" where
  "whitespaceRuns inRun [] = 0"
| "whitespaceRuns inRun (c # cs) =
     (if isWhitespace c then (if inRun then 0 else 1) + whitespaceRuns True cs
      else whitespaceRuns False cs)"

definition splitLength :: "string \<Rightarrow> nat" where
  "splitLength s = 1 + whitespaceRuns False s"

text \<open>The values \<^verbatim>\<open>JSON.parse\<close> and \<^verbatim>\<open>req.json()\<close> produce.\<close>

datatype json =
    JNull
  | JBool bool
  | JNum int
  | JStr string
  | JArr "json list"
  | JObj "(string \<times> json) list"

text \<open>JavaScript truthiness of such a value (\<^verbatim>\<open>!!v\<close>).\<close>

fun truthy :: "json \<Rightarrow> bool" where
  "truthy JNull = False"
| "truthy (JBool b) = b"
| "truthy (JNum n) = (n \<noteq> 0)"
| "truthy (JStr s) = (s \<noteq> [])"
| "truthy (JArr xs) = True"
| "truthy (JObj kvs) = True"

section \<open>Provider router (src/lib/smart-router.ts)\<close>

datatype Provider = Groq | Siliconflow | Gemini | Github | Huggingface

datatype TaskType = Simple | ComplexReasoning | LongContext | Vision

text \<open>
  \<^verbatim>\<open>RouterInput\<close>; the field \<^verbatim>\<open>text\<close> is named \<open>inputText\<close> here. An optional
  field that is absent is \<open>None\<close>.
\<close>

record RouterInput =
  inputText :: string
  hasImage :: "bool option"
  historyLength :: "int option"
  taskType :: "TaskType option"
  wordCount :: "int option"

record ModelSelection =
  provider :: Provider
  modelId :: string
  baseUrl :: "string option"
  reason :: string

text \<open>
  The four locals of \<^verbatim>\<open>selectModel\<close>. \<^verbatim>\<open>a || b\<close> takes \<open>b\<close> when \<open>a\<close> is absent
  or falsy (the number 0, \<^verbatim>\<open>false\<close>).
\<close>

definition effectiveWordCount :: "RouterInput \<Rightarrow> int" where
  "effectiveWordCount input =
     (case wordCount input of
        Some n \<Rightarrow> if n \<noteq> 0 then n else int (splitLength (inputText input))
      | None \<Rightarrow> int (splitLength (inputText input)))"

definition effectiveHasImage :: "RouterInput \<Rightarrow> bool" where
  "effectiveHasImage input = (case hasImage input of Some b \<Rightarrow> b | None \<Rightarrow> False)"

definition effectiveHistoryLength :: "RouterInput \<Rightarrow> int" where
  "effectiveHistoryLength input = (case historyLength input of Some n \<Rightarrow> n | None \<Rightarrow> 0)"

definition effectiveTaskType :: "RouterInput \<Rightarrow> TaskType" where
  "effectiveTaskType input = (case taskType input of Some t \<Rightarrow> t | None \<Rightarrow> Simple)"

definition selectModel :: "RouterInput \<Rightarrow> ModelSelection" where
  "selectModel input =
     (if effectiveHasImage input \<or> effectiveWordCount input > 10000
         \<or> int (length (inputText input)) > 50000
      then \<lparr>provider = Gemini, modelId = ''gemini-1.5-flash'', baseUrl = None,
            reason = ''Large context or image input - Gemini handles 1M tokens and vision''\<rparr>
      else if effectiveTaskType input = ComplexReasoning
      then \<lparr>provider = Huggingface, modelId = ''meta-llama/Llama-3.1-8B-Instruct'',
            baseUrl = Some ''https://api-inference.huggingface.co/v1'',
            reason = ''Complex reasoning task - Using HuggingFace Llama model''\<rparr>
      else if effectiveHistoryLength input > 10
      then \<lparr>provider = Siliconflow, modelId = ''Qwen/Qwen2.5-7B-Instruct'',
            baseUrl = Some ''https://api.siliconflow.cn/v1'',
            reason = ''Long conversation history - SiliconFlow has 500K TPM capacity''\<rparr>
      else \<lparr>provider = Groq, modelId = ''llama-3.1-8b-instant'',
            baseUrl = Some ''https://api.groq.com/openai/v1'',
            reason = ''Short interaction - Groq provides instant latency (~0.2s)''\<rparr>)"

text \<open>
  The roles by which the specification names the providers, in its fixed priority list
  \<^verbatim>\<open>[fast, high-volume, alternative-reasoning, vision, reasoning-tier]\<close>, which the
  sources write \<^verbatim>\<open>["groq", "siliconflow", "huggingface", "gemini", "github"]\<close>.
\<close>

definition fastProvider :: Provider where "fastProvider = Groq"
definition highVolumeProvider :: Provider where "highVolumeProvider = Siliconflow"
definition alternativeReasoningProvider :: Provider where "alternativeReasoningProvider = Huggingface"
definition visionProvider :: Provider where "visionProvider = Gemini"
definition reasoningTierProvider :: Provider where "reasoningTierProvider = Github"

text \<open>
  The rule order as the specification words it, over the fields of the input as given:
  an absent \<^verbatim>\<open>wordCount\<close> is not above 10000.
\<close>

definition selectModel_spec :: "RouterInput \<Rightarrow> Provider" where
  "selectModel_spec input =
     (if hasImage input = Some True
         \<or> (case wordCount input of Some n \<Rightarrow> n > 10000 | None \<Rightarrow> False)
         \<or> length (inputText input) > 50000
      then visionProvider
      else if taskType input = Some ComplexReasoning then reasoningTierProvider
      else if (case historyLength input of Some n \<Rightarrow> n > 10 | None \<Rightarrow> False)
      then highVolumeProvider
      else fastProvider)"

section \<open>Provider adapter (src/lib/ai-providers.ts)\<close>

text \<open>\<^verbatim>\<open>process.env\<close>: the environment variables that are set.\<close>

type_synonym Env = "string \<rightharpoonup> string"

record KeyCheck =
  available :: bool
  missing :: "string list"

fun required :: "Provider \<Rightarrow> string" where
  "required Groq = ''GROQ_API_KEY''"
| "required Siliconflow = ''SILICONFLOW_API_KEY''"
| "required Gemini = ''GOOGLE_GENERATIVE_AI_API_KEY''"
| "required Github = ''GITHUB_TOKEN''"
| "required Huggingface = ''HUGGINGFACE_API_KEY''"

text \<open>\<^verbatim>\<open>!!process.env[key]\<close>: the variable is set and not the empty string.\<close>

definition checkApiKeys :: "Env \<Rightarrow> Provider \<Rightarrow> KeyCheck" where
  "checkApiKeys env p =
     (let key = required p;
          avail = (case env key of Some v \<Rightarrow> v \<noteq> [] | None \<Rightarrow> False)
      in \<lparr>available = avail, missing = (if avail then [] else [key])\<rparr>)"

text \<open>
  One call of an OpenAI-compatible endpoint: the client built for a provider at a base
  URL and \<^verbatim>\<open>chat.completions.create\<close> for a model. The endpoints are outside the
  repository, so their behaviour is the parameter \<open>upstream\<close>: a call either throws
  (\<open>Inl\<close> the error message) or returns the stream of text deltas (\<open>Inr\<close>). The
  messages sent (system prompt, history, prompt) are the same for every call made for one
  request and are part of that parameter, as is the way the endpoints answer the keys of
  the environment.
\<close>

record Attempt =
  attemptProvider :: Provider
  attemptBaseURL :: string
  attemptModel :: string

type_synonym Upstream = "Attempt \<Rightarrow> string + string list"

text \<open>What a request does, in order; the functions below return it beside their result.\<close>

datatype Step = SelectModel | CheckApiKeys Provider | Invoke Attempt

fun defaultBaseURL :: "Provider \<Rightarrow> string" where
  "defaultBaseURL Groq = ''https://api.groq.com/openai/v1''"
| "defaultBaseURL Siliconflow = ''https://api.siliconflow.cn/v1''"
| "defaultBaseURL Github = ''https://models.inference.ai.azure.com''"
| "defaultBaseURL Huggingface = ''https://api-inference.huggingface.co/v1''"
| "defaultBaseURL Gemini = []"

text \<open>
  \<^verbatim>\<open>new OpenAI({ baseURL, apiKey: process.env[key] })\<close>: the constructor of the SDK
  throws when it gets no key, that is when the variable is not set (the SDK's own default,
  the variable \<^verbatim>\<open>OPENAI_API_KEY\<close>, is taken to be unset as well). The message is the
  SDK's.
\<close>

definition missingApiKeyMessage :: string where
  "missingApiKeyMessage = ''The OPENAI_API_KEY environment variable is missing or empty; either provide it, or instantiate the OpenAI client with an apiKey option, like new OpenAI({ apiKey: 'My API Key' }).''"

text \<open>
  The \<^verbatim>\<open>switch\<close> over the selected provider. The \<open>gemini\<close> case throws without
  calling anything. The others build the client with the provider's key, which throws when
  the key is not set, and then call \<^verbatim>\<open>model.baseUrl || <default>\<close> with
  \<^verbatim>\<open>model.modelId\<close>.
\<close>

definition primaryCall ::
    "Env \<Rightarrow> Upstream \<Rightarrow> ModelSelection \<Rightarrow> Step list \<times> (string + string list)" where
  "primaryCall env upstream model =
     (if provider model = Gemini
      then ([], Inl ''Gemini provider requires @ai-sdk/google package. Please install it or use a different provider.'')
      else
        (case env (required (provider model)) of
           None \<Rightarrow> ([], Inl missingApiKeyMessage)
         | Some apiKey \<Rightarrow>
             (let a = \<lparr>attemptProvider = provider model,
                       attemptBaseURL =
                         (case baseUrl model of
                            Some u \<Rightarrow> if u \<noteq> [] then u else defaultBaseURL (provider model)
                          | None \<Rightarrow> defaultBaseURL (provider model)),
                       attemptModel = modelId model\<rparr>
              in ([Invoke a], upstream a))))"

text \<open>
  The body of the fallback loop has a branch for \<open>groq\<close>, \<open>siliconflow\<close> and
  \<open>huggingface\<close>; \<open>gemini\<close> is skipped by \<^verbatim>\<open>continue\<close>, and there is no branch for
  \<open>github\<close>. The loop reaches a branch only after \<^verbatim>\<open>checkApiKeys\<close> has found the
  key, so the client is built.
\<close>

fun fallbackAttempt :: "Provider \<Rightarrow> Attempt option" where
  "fallbackAttempt Groq = Some \<lparr>attemptProvider = Groq,
      attemptBaseURL = ''https://api.groq.com/openai/v1'', attemptModel = ''llama-3.1-8b-instant''\<rparr>"
| "fallbackAttempt Siliconflow = Some \<lparr>attemptProvider = Siliconflow,
      attemptBaseURL = ''https://api.siliconflow.cn/v1'', attemptModel = ''Qwen/Qwen2.5-7B-Instruct''\<rparr>"
| "fallbackAttempt Huggingface = Some \<lparr>attemptProvider = Huggingface,
      attemptBaseURL = ''https://api-inference.huggingface.co/v1'',
      attemptModel = ''meta-llama/Llama-3.1-8B-Instruct''\<rparr>"
| "fallbackAttempt Gemini = None"
| "fallbackAttempt Github = None"

text \<open>
  The loop \<^verbatim>\<open>for (const fallbackProvider of fallbackProviders)\<close>: a provider without a
  key is skipped, a call that throws moves on to the next provider, the first call that
  returns ends the loop. \<open>None\<close>: the loop ran to its end.
\<close>

fun tryFallbacks :: "Env \<Rightarrow> Upstream \<Rightarrow> Provider list \<Rightarrow> Step list \<times> string list option" where
  "tryFallbacks env upstream [] = ([], None)"
| "tryFallbacks env upstream (f # fs) =
     (if \<not> available (checkApiKeys env f)
      then (let (steps, r) = tryFallbacks env upstream fs in (CheckApiKeys f # steps, r))
      else
        (case fallbackAttempt f of
           None \<Rightarrow> (let (steps, r) = tryFallbacks env upstream fs in (CheckApiKeys f # steps, r))
         | Some a \<Rightarrow>
             (case upstream a of
                Inr stream \<Rightarrow> ([CheckApiKeys f, Invoke a], Some stream)
              | Inl fallbackError \<Rightarrow>
                  (let (steps, r) = tryFallbacks env upstream fs
                   in (CheckApiKeys f # Invoke a # steps, r)))))"

text \<open>The list the \<^verbatim>\<open>catch\<close> block of \<^verbatim>\<open>streamFromProvider\<close> walks.\<close>

definition adapterFallbackProviders :: "Provider \<Rightarrow> Provider list" where
  "adapterFallbackProviders p = filter (\<lambda>q. q \<noteq> p) [Groq, Siliconflow, Huggingface, Gemini]"

definition streamFromProvider ::
    "Env \<Rightarrow> Upstream \<Rightarrow> ModelSelection \<Rightarrow> Step list \<times> (string + string list)" where
  "streamFromProvider env upstream model =
     (case primaryCall env upstream model of
        (steps, Inr stream) \<Rightarrow> (steps, Inr stream)
      | (steps, Inl err) \<Rightarrow>
          (if provider model \<noteq> Siliconflow
           then
             (case tryFallbacks env upstream (adapterFallbackProviders (provider model)) of
                (steps', Some stream) \<Rightarrow> (steps @ steps', Inr stream)
              | (steps', None) \<Rightarrow> (steps @ steps', Inl err))
           else (steps, Inl err)))"

section \<open>Explain endpoint (src/app/api/explain/route.ts)\<close>

text \<open>
  What \<^verbatim>\<open>await req.json()\<close> gives: the JSON value of the body, or an exception with
  its message when the body is not JSON.
\<close>

datatype RequestBody = NotJson string | Body json

text \<open>
  The three fields after \<^verbatim>\<open>const { term, taskType, context } = ...\<close>: each is absent
  (\<open>None\<close>) or holds a JSON value. The fields \<^verbatim>\<open>term\<close> and \<^verbatim>\<open>context\<close> are named
  \<open>termField\<close> and \<open>contextField\<close> here.
\<close>

record ExplainBody =
  termField :: "json option"
  taskTypeField :: "json option"
  contextField :: "json option"

text \<open>
  The destructuring itself: it reads the members of an object (each key once, as a parsed
  object has them), finds none of the three in an array, a string, a number or a boolean,
  and throws a \<^verbatim>\<open>TypeError\<close> on \<^verbatim>\<open>null\<close> (\<open>None\<close>). The message is the engine's.
\<close>

fun destructure :: "json \<Rightarrow> ExplainBody option" where
  "destructure JNull = None"
| "destructure (JObj kvs) =
     Some \<lparr>termField = map_of kvs ''term'', taskTypeField = map_of kvs ''taskType'',
           contextField = map_of kvs ''context''\<rparr>"
| "destructure v = Some \<lparr>termField = None, taskTypeField = None, contextField = None\<rparr>"

definition nullDestructureMessage :: string where
  "nullDestructureMessage = ''Cannot destructure property 'term' of '(intermediate value)' as it is null.''"

datatype ResponseBody = JsonError string | EventStream "string list"

record Response =
  httpStatus :: nat
  responseBody :: ResponseBody

text \<open>
  \<^verbatim>\<open>taskType || "simple"\<close> as \<^verbatim>\<open>selectModel\<close> reads it: the router compares the value
  with \<^verbatim>\<open>"complex_reasoning"\<close> only, so a value outside its four strings acts as
  \<^verbatim>\<open>"simple"\<close> does.
\<close>

definition requestTaskType :: "json option \<Rightarrow> TaskType" where
  "requestTaskType v =
     (if v = Some (JStr ''complex_reasoning'') then ComplexReasoning
      else if v = Some (JStr ''long_context'') then LongContext
      else if v = Some (JStr ''vision'') then Vision
      else Simple)"

text \<open>The list the endpoint walks when the selected provider has no key.\<close>

definition routeFallbackProviders :: "Provider \<Rightarrow> Provider list" where
  "routeFallbackProviders p =
     filter (\<lambda>q. q \<noteq> p) [Groq, Siliconflow, Huggingface, Gemini, Github]"

fun providerName :: "Provider \<Rightarrow> string" where
  "providerName Groq = ''groq''"
| "providerName Siliconflow = ''siliconflow''"
| "providerName Gemini = ''gemini''"
| "providerName Github = ''github''"
| "providerName Huggingface = ''huggingface''"

definition fallbackSelection :: "Provider \<Rightarrow> ModelSelection" where
  "fallbackSelection p =
     \<lparr>provider = p,
      modelId =
        (if p = Groq then ''llama-3.1-8b-instant''
         else if p = Siliconflow then ''Qwen/Qwen2.5-7B-Instruct''
         else if p = Gemini then ''gemini-1.5-flash''
         else if p = Huggingface then ''meta-llama/Llama-3.1-8B-Instruct''
         else ''gpt-4o''),
      baseUrl =
        (if p = Groq then Some ''https://api.groq.com/openai/v1''
         else if p = Siliconflow then Some ''https://api.siliconflow.cn/v1''
         else if p = Huggingface then Some ''https://api-inference.huggingface.co/v1''
         else if p = Github then Some ''https://models.inference.ai.azure.com''
         else None),
      reason = ''Primary provider unavailable, using '' @ providerName p @ '' as fallback''\<rparr>"

text \<open>
  The loop \<^verbatim>\<open>for (const provider of availableFallbacks)\<close>: the first provider with a
  key, if any.
\<close>

fun findFallback :: "Env \<Rightarrow> Provider list \<Rightarrow> Step list \<times> Provider option" where
  "findFallback env [] = ([], None)"
| "findFallback env (p # ps) =
     (if available (checkApiKeys env p) then ([CheckApiKeys p], Some p)
      else (let (steps, r) = findFallback env ps in (CheckApiKeys p # steps, r)))"

definition noKeysMessage :: string where
  "noKeysMessage = ''No API keys configured. Please configure at least one provider (GROQ_API_KEY, SILICONFLOW_API_KEY, HUGGINGFACE_API_KEY, GOOGLE_GENERATIVE_AI_API_KEY, or GITHUB_TOKEN) in your environment variables.''"

text \<open>The end of the handler: the stream, or the \<^verbatim>\<open>catch\<close> block's status 500.\<close>

definition streamResponse :: "Env \<Rightarrow> Upstream \<Rightarrow> ModelSelection \<Rightarrow> Step list \<times> Response" where
  "streamResponse env upstream model =
     (case streamFromProvider env upstream model of
        (steps, Inr stream) \<Rightarrow> (steps, \<lparr>httpStatus = 200, responseBody = EventStream stream\<rparr>)
      | (steps, Inl err) \<Rightarrow> (steps, \<lparr>httpStatus = 500, responseBody = JsonError err\<rparr>))"

text \<open>
  The handler from its first test on. \<^verbatim>\<open>!term || typeof term !== "string"\<close> lets a
  non-empty string through and nothing else.
\<close>

definition POST_fields :: "Env \<Rightarrow> Upstream \<Rightarrow> ExplainBody \<Rightarrow> Step list \<times> Response" where
  "POST_fields env upstream body =
     (case termField body of
        Some (JStr term) \<Rightarrow>
          (if term = [] then ([], \<lparr>httpStatus = 400, responseBody = JsonError ''Term is required''\<rparr>)
           else
             (let modelSelection = selectModel
                    \<lparr>inputText = term, hasImage = None, historyLength = None,
                     taskType = Some (requestTaskType (taskTypeField body)),
                     wordCount = Some (int (splitLength term))\<rparr>;
                  keyCheck = checkApiKeys env (provider modelSelection);
                  steps = [SelectModel, CheckApiKeys (provider modelSelection)]
              in if \<not> available keyCheck
                 then
                   (case findFallback env (routeFallbackProviders (provider modelSelection)) of
                      (steps', None) \<Rightarrow>
                        (steps @ steps', \<lparr>httpStatus = 500, responseBody = JsonError noKeysMessage\<rparr>)
                    | (steps', Some p) \<Rightarrow>
                        (let (steps'', response) = streamResponse env upstream (fallbackSelection p)
                         in (steps @ steps' @ steps'', response)))
                 else
                   (let (steps'', response) = streamResponse env upstream modelSelection
                    in (steps @ steps'', response))))
      | _ \<Rightarrow> ([], \<lparr>httpStatus = 400, responseBody = JsonError ''Term is required''\<rparr>))"

text \<open>
  \<^verbatim>\<open>POST\<close>: an exception of \<^verbatim>\<open>req.json()\<close> or of the destructuring is caught
  by the \<^verbatim>\<open>catch\<close> block, which answers the status 500 with the error's message.
\<close>

definition POST :: "Env \<Rightarrow> Upstream \<Rightarrow> RequestBody \<Rightarrow> Step list \<times> Response" where
  "POST env upstream request =
     (case request of
        NotJson message \<Rightarrow> ([], \<lparr>httpStatus = 500, responseBody = JsonError message\<rparr>)
      | Body v \<Rightarrow>
          (case destructure v of
             None \<Rightarrow> ([], \<lparr>httpStatus = 500, responseBody = JsonError nullDestructureMessage\<rparr>)
           | Some body \<Rightarrow> POST_fields env upstream body))"

section \<open>Jobs and the job queue (src/backend/queue/jobs.ts)\<close>

datatype JobType = Explain | Summarize | SummarizeBatch

datatype JobState = Queued | Processing | Completed | Failed

text \<open>\<^verbatim>\<open>JOB_PRIORITIES\<close>: a higher number is a higher priority.\<close>

fun JOB_PRIORITIES :: "JobType \<Rightarrow> nat" where
  "JOB_PRIORITIES Explain = 10"
| "JOB_PRIORITIES SummarizeBatch = 5"
| "JOB_PRIORITIES Summarize = 1"

record JobResult =
  success :: bool
  resultData :: "json option"
  resultError :: "string option"
  resultProvider :: "string option"
  resultModel :: "string option"

text \<open>\<^verbatim>\<open>progress?: number | { content?: string }\<close>.\<close>

datatype Progress = Percent nat | Content "string option"

record JobStatus =
  jobId :: string
  status :: JobState
  position :: "nat option"
  progress :: "Progress option"
  result :: "JobResult option"
  error :: "string option"
  createdAt :: nat
  startedAt :: "nat option"
  completedAt :: "nat option"

text \<open>
  Modelled from the spec: the queue itself (\<^verbatim>\<open>@/backend/queue/queue\<close>, with
  \<^verbatim>\<open>enqueue\<close> and \<^verbatim>\<open>claimNext\<close>) is not among the sources; only its types and
  \<^verbatim>\<open>JOB_PRIORITIES\<close> are. A queue entry is the job with the priority the queue gave
  it and its status record.
\<close>

record QueueEntry =
  entryType :: JobType
  entryPriority :: nat
  entryStatus :: JobStatus

text \<open>
  Modelled from the spec: \<^verbatim>\<open>enqueue(job)\<close> assigns the priority of the job's type and
  persists the status \<open>queued\<close>.
\<close>

definition enqueue :: "string \<Rightarrow> JobType \<Rightarrow> nat \<Rightarrow> QueueEntry list \<Rightarrow> QueueEntry list" where
  "enqueue jid ty now store =
     store @ [\<lparr>entryType = ty, entryPriority = JOB_PRIORITIES ty,
               entryStatus = \<lparr>jobId = jid, status = Queued, position = None, progress = None,
                               result = None, error = None, createdAt = now,
                               startedAt = None, completedAt = None\<rparr>\<rparr>]"

definition isQueued :: "QueueEntry \<Rightarrow> bool" where
  "isQueued e \<longleftrightarrow> status (entryStatus e) = Queued"

text \<open>
  Modelled from the spec: \<^verbatim>\<open>claimNext\<close> selects, among the queued jobs, the one with
  the highest priority and, among ties, the earliest \<^verbatim>\<open>createdAt\<close>; it marks the
  claimed job \<open>processing\<close> with \<^verbatim>\<open>startedAt\<close> set. \<open>beats a b\<close>: \<open>a\<close> is
  claimed rather than \<open>b\<close>.
\<close>

definition beats :: "QueueEntry \<Rightarrow> QueueEntry \<Rightarrow> bool" where
  "beats a b \<longleftrightarrow>
     entryPriority a > entryPriority b
     \<or> (entryPriority a = entryPriority b
        \<and> createdAt (entryStatus a) < createdAt (entryStatus b))"

text \<open>
  Modelled from the spec: the selection of \<^verbatim>\<open>claimNext\<close>, a scan that keeps the best
  entry seen so far (the scan is missing from the sources with the queue).
\<close>

fun bestOf :: "QueueEntry \<Rightarrow> QueueEntry list \<Rightarrow> QueueEntry" where
  "bestOf b [] = b"
| "bestOf b (x # xs) = bestOf (if beats x b then x else b) xs"

text \<open>
  Modelled from the spec: the write of \<^verbatim>\<open>claimNext\<close>, which marks the claimed entry
  \<open>processing\<close> at the time \<open>now\<close> (missing from the sources with the queue).
\<close>

fun markClaimed :: "nat \<Rightarrow> QueueEntry \<Rightarrow> QueueEntry list \<Rightarrow> QueueEntry list" where
  "markClaimed now j [] = []"
| "markClaimed now j (x # xs) =
     (if x = j
      then x\<lparr>entryStatus := (entryStatus x)\<lparr>status := Processing, startedAt := Some now\<rparr>\<rparr> # xs
      else x # markClaimed now j xs)"

definition claimNext :: "nat \<Rightarrow> QueueEntry list \<Rightarrow> QueueEntry option \<times> QueueEntry list" where
  "claimNext now store =
     (case filter isQueued store of
        [] \<Rightarrow> (None, store)
      | x # xs \<Rightarrow> (let j = bestOf x xs in (Some j, markClaimed now j store)))"

text \<open>
  The jobs a worker gets from successive calls of \<^verbatim>\<open>claimNext\<close>, one call at each of
  the given times, until a call finds nothing queued.
\<close>

fun claimAll :: "nat list \<Rightarrow> QueueEntry list \<Rightarrow> QueueEntry list" where
  "claimAll [] store = []"
| "claimAll (now # nows) store =
     (case claimNext now store of
        (None, store') \<Rightarrow> []
      | (Some j, store') \<Rightarrow> j # claimAll nows store')"

text \<open>The order the claim asks of two jobs claimed one after the other.\<close>

definition claimedBefore :: "QueueEntry \<Rightarrow> QueueEntry \<Rightarrow> bool" where
  "claimedBefore a b \<longleftrightarrow>
     entryPriority a > entryPriority b
     \<or> (entryPriority a = entryPriority b
        \<and> createdAt (entryStatus a) \<le> createdAt (entryStatus b))"

subsection \<open>Submission of the summarize jobs\<close>

text \<open>
  Modelled from the spec: the handlers of the \<open>summarize\<close> and \<open>summarize-batch\<close>
  submissions (\<^verbatim>\<open>/api/summarize\<close>, \<^verbatim>\<open>/api/summarize-batch\<close>) and the worker behind
  them are not among the sources. These are the error kinds of the spec's section 7.
\<close>

datatype ErrorKind =
    MissingCredentials
  | ProviderUnavailable
  | RateLimited
  | Timeout
  | UpstreamError
  | MalformedResponse
  | JobNotFound
  | JobTimedOut

text \<open>
  Modelled from the spec: the fallback contract of its section 4.2, missing from the sources
  as one function: \<^verbatim>\<open>fallbackOrder(excluding: provider)\<close> is the fixed priority list
  \<^verbatim>\<open>[fast, high-volume, alternative-reasoning, vision, reasoning-tier]\<close> minus the
  excluded entry.
\<close>

definition fallbackOrder :: "Provider \<Rightarrow> Provider list" where
  "fallbackOrder p =
     filter (\<lambda>q. q \<noteq> p)
       [fastProvider, highVolumeProvider, alternativeReasoningProvider, visionProvider,
        reasoningTierProvider]"

text \<open>
  Modelled from the spec: the worker, missing from the sources, checks the credentials of
  the selected provider; if they are unavailable it walks the fallback list in order,
  skipping providers without credentials, and fails only if the entire list is exhausted,
  with \<open>ProviderUnavailable\<close> (all fallback candidates lack credentials).
\<close>

definition resolveProvider :: "Env \<Rightarrow> Provider \<Rightarrow> Step list \<times> (ErrorKind + Provider)" where
  "resolveProvider env p =
     (if available (checkApiKeys env p) then ([CheckApiKeys p], Inr p)
      else
        (case findFallback env (fallbackOrder p) of
           (steps, None) \<Rightarrow> (CheckApiKeys p # steps, Inl ProviderUnavailable)
         | (steps, Some q) \<Rightarrow> (CheckApiKeys p # steps, Inr q)))"

text \<open>
  Modelled from the spec: the submission of a \<open>summarize\<close> or \<open>summarize-batch\<close> job,
  missing from the sources. The worker asks the router for a selection (\<open>input\<close> is the
  router input made from the job's payload, which the spec leaves open), resolves the
  provider, and invokes the adapter; an error of the adapter fails the job with
  \<open>UpstreamError\<close>.
\<close>

definition submitSummaryJob ::
    "Env \<Rightarrow> Upstream \<Rightarrow> RouterInput \<Rightarrow> Step list \<times> (ErrorKind + string list)" where
  "submitSummaryJob env upstream input =
     (let selection = selectModel input
      in case resolveProvider env (provider selection) of
           (steps, Inl kind) \<Rightarrow> (SelectModel # steps, Inl kind)
         | (steps, Inr p) \<Rightarrow>
             (case streamFromProvider env upstream
                     (if p = provider selection then selection else fallbackSelection p) of
                (steps', Inr stream) \<Rightarrow> (SelectModel # steps @ steps', Inr stream)
              | (steps', Inl err) \<Rightarrow> (SelectModel # steps @ steps', Inl UpstreamError)))"

section \<open>Status stream (src/app/api/queue/stream/[jobId]/route.ts)\<close>

text \<open>
  What the stream writes: each constructor is one \<^verbatim>\<open>data: ...\n\n\<close> message.
  \<open>PlainError\<close> is \<^verbatim>\<open>{ error }\<close>, \<open>ResultContent\<close> and \<open>ResultSummaries\<close> are the
  two \<^verbatim>\<open>type: "result"\<close> events, \<open>ErrorEvent\<close> is \<^verbatim>\<open>type: "error"\<close>,
  \<open>StatusEvent\<close> is \<^verbatim>\<open>type: "status"\<close>, \<open>ProgressEvent\<close> is \<^verbatim>\<open>type: "progress"\<close>
  and \<open>DoneSentinel\<close> is the line \<^verbatim>\<open>data: [DONE]\<close>.
\<close>

datatype Event =
    PlainError string
  | ResultContent string
  | ResultSummaries json
  | ErrorEvent string
  | StatusEvent JobState
  | ProgressEvent string
  | DoneSentinel

text \<open>What one call of \<^verbatim>\<open>getJobStatus\<close> gives: a status, \<^verbatim>\<open>null\<close>, or an exception.\<close>

datatype PollOutcome = Found JobStatus | NotFound | Throws string

record StreamState =
  lastStatus :: "JobState option"
  sent :: "Event list"
  closed :: bool

definition initialStream :: StreamState where
  "initialStream = \<lparr>lastStatus = None, sent = [], closed = False\<rparr>"

definition sendEvent :: "Event \<Rightarrow> StreamState \<Rightarrow> StreamState" where
  "sendEvent e st = st\<lparr>sent := sent st @ [e]\<rparr>"

text \<open>\<^verbatim>\<open>clearInterval(pollInterval); controller.close()\<close>.\<close>

definition closeStream :: "StreamState \<Rightarrow> StreamState" where
  "closeStream st = st\<lparr>closed := True\<rparr>"

text \<open>
  The \<^verbatim>\<open>result\<close> event of a completed job: sent when \<^verbatim>\<open>result.success\<close> and
  \<^verbatim>\<open>result.data\<close> are truthy and the data is a string or an object
  (\<^verbatim>\<open>typeof\<close> of an array is \<^verbatim>\<open>"object"\<close> too).
\<close>

definition resultEvents :: "JobResult \<Rightarrow> Event list" where
  "resultEvents r =
     (case resultData r of
        None \<Rightarrow> []
      | Some d \<Rightarrow>
          (if success r \<and> truthy d
           then (case d of
                   JStr s \<Rightarrow> [ResultContent s]
                 | JObj kvs \<Rightarrow> [ResultSummaries d]
                 | JArr xs \<Rightarrow> [ResultSummaries d]
                 | _ \<Rightarrow> [])
           else []))"

text \<open>\<^verbatim>\<open>status.error || "Job failed"\<close>.\<close>

definition failureMessage :: "JobStatus \<Rightarrow> string" where
  "failureMessage s =
     (case error s of Some m \<Rightarrow> if m \<noteq> [] then m else ''Job failed'' | None \<Rightarrow> ''Job failed'')"

text \<open>
  The \<^verbatim>\<open>progress\<close> branch: \<^verbatim>\<open>status.progress\<close> is an object with a truthy
  \<^verbatim>\<open>content\<close>.
\<close>

definition progressEvents :: "JobStatus \<Rightarrow> Event list" where
  "progressEvents s =
     (case progress s of
        Some (Content (Some c)) \<Rightarrow> if c \<noteq> [] then [ProgressEvent c] else []
      | _ \<Rightarrow> [])"

text \<open>
  One run of the interval callback. Once the interval is cleared and the stream closed,
  the callback does not run again. The runs are taken one after the other, each to its
  end, and the client does not disconnect.
\<close>

definition poll :: "StreamState \<Rightarrow> PollOutcome \<Rightarrow> StreamState" where
  "poll st outcome =
     (if closed st then st
      else
        (case outcome of
           NotFound \<Rightarrow> closeStream (sendEvent (PlainError ''Job not found'') st)
         | Throws message \<Rightarrow> closeStream (sendEvent (PlainError message) st)
         | Found s \<Rightarrow>
             (if Some (status s) \<noteq> lastStatus st
              then
                (case (if status s = Completed then result s else None) of
                   Some r \<Rightarrow>
                     closeStream (sendEvent DoneSentinel (st\<lparr>sent := sent st @ resultEvents r\<rparr>))
                 | None \<Rightarrow>
                     (if status s = Failed
                      then closeStream (sendEvent DoneSentinel
                             (sendEvent (ErrorEvent (failureMessage s)) st))
                      else if status s = Processing
                      then (sendEvent (StatusEvent Processing) st)\<lparr>lastStatus := Some (status s)\<rparr>
                      else st\<lparr>lastStatus := Some (status s)\<rparr>))
              else st\<lparr>sent := sent st @ progressEvents s\<rparr>)))"

text \<open>The stream after the polls of a list of outcomes, in order.\<close>

definition runStream :: "PollOutcome list \<Rightarrow> StreamState" where
  "runStream outcomes = foldl poll initialStream outcomes"

section \<open>Batch assembler (the PDF reader component)\<close>

record Page =
  pageNum :: nat
  pageText :: string

definition MAX_BATCH_PAGES :: nat where "MAX_BATCH_PAGES = 20"

definition MAX_BATCH_TOKENS :: nat where "MAX_BATCH_TOKENS = 25000"

text \<open>\<^verbatim>\<open>Math.ceil(item.pageText.length / 4)\<close>.\<close>

definition estimatedTokens :: "Page \<Rightarrow> nat" where
  "estimatedTokens item = (length (pageText item) + 3) div 4"

definition placeholderSummary :: string where
  "placeholderSummary = ''No text content available for this page.''"

text \<open>
  \<^verbatim>\<open>generatingSummaries.has(n) || pageSummaryCache[n]\<close>. Both are the values the
  component had when the running function was created; they do not change while it runs.
\<close>

definition alreadyDone :: "nat set \<Rightarrow> (nat \<rightharpoonup> string) \<Rightarrow> nat \<Rightarrow> bool" where
  "alreadyDone generatingSummaries pageSummaryCache n \<longleftrightarrow>
     n \<in> generatingSummaries
     \<or> (case pageSummaryCache n of Some s \<Rightarrow> s \<noteq> [] | None \<Rightarrow> False)"

text \<open>\<^verbatim>\<open>!item.pageText || item.pageText.trim().length < 10\<close>.\<close>

definition emptyPage :: "Page \<Rightarrow> bool" where
  "emptyPage item \<longleftrightarrow> pageText item = [] \<or> length (trim (pageText item)) < 10"

text \<open>
  What the assembler does, in order: \<^verbatim>\<open>setPageSummary(n, s)\<close> writes a summary into
  the store, \<open>SubmitBatch\<close> is the \<^verbatim>\<open>POST\<close> of a batch to
  \<^verbatim>\<open>/api/summarize-batch\<close>. The summaries written from the response to a batch
  depend on that response; they are the subject of \<open>distributeSummaries\<close> below and are
  not among the effects of the drain loop.
\<close>

datatype Effect = SetPageSummary nat string | SubmitBatch "Page list"

text \<open>
  The inner loop of \<^verbatim>\<open>processSummaryQueue\<close>, from the batch and token count built so
  far and the queue: it returns the batch, its token count, the queue that is left and the
  placeholder summaries written.
\<close>

fun buildBatch ::
    "nat set \<Rightarrow> (nat \<rightharpoonup> string) \<Rightarrow> Page list \<Rightarrow> nat \<Rightarrow> Page list
      \<Rightarrow> Page list \<times> nat \<times> Page list \<times> Effect list" where
  "buildBatch gen cache batch currentBatchTokens [] = (batch, currentBatchTokens, [], [])"
| "buildBatch gen cache batch currentBatchTokens (item # queue) =
     (if \<not> length batch < MAX_BATCH_PAGES
      then (batch, currentBatchTokens, item # queue, [])
      else if alreadyDone gen cache (pageNum item)
      then buildBatch gen cache batch currentBatchTokens queue
      else if emptyPage item
      then (let (b, t, q, effects) = buildBatch gen cache batch currentBatchTokens queue
            in (b, t, q, SetPageSummary (pageNum item) placeholderSummary # effects))
      else if length batch > 0 \<and> currentBatchTokens + estimatedTokens item > MAX_BATCH_TOKENS
      then (batch, currentBatchTokens, item # queue, [])
      else buildBatch gen cache (batch @ [item]) (currentBatchTokens + estimatedTokens item) queue)"

text \<open>
  The start of \<^verbatim>\<open>generateBatchSummaries\<close>: the pages already generating or cached
  are filtered out, and nothing is sent when none is left.
\<close>

definition pagesToProcess :: "nat set \<Rightarrow> (nat \<rightharpoonup> string) \<Rightarrow> Page list \<Rightarrow> Page list" where
  "pagesToProcess gen cache pages = filter (\<lambda>p. \<not> alreadyDone gen cache (pageNum p)) pages"

definition submitEffects :: "nat set \<Rightarrow> (nat \<rightharpoonup> string) \<Rightarrow> Page list \<Rightarrow> Effect list" where
  "submitEffects gen cache pages =
     (if pagesToProcess gen cache pages = [] then []
      else [SubmitBatch (pagesToProcess gen cache pages)])"

text \<open>
  The outer loop of \<^verbatim>\<open>processSummaryQueue\<close>. While the function waits for a batch
  (and for the pause after it), \<^verbatim>\<open>queueSummary\<close> may push further pages onto the
  queue: \<open>arrivals\<close> lists the pages pushed during each wait, in order, and no page
  arrives once the list is used up.
\<close>

function drainQueue ::
    "nat set \<Rightarrow> (nat \<rightharpoonup> string) \<Rightarrow> Page list \<Rightarrow> Page list list \<Rightarrow> Effect list" where
  "drainQueue gen cache queue arrivals =
     (if queue = [] then []
      else
        (case buildBatch gen cache [] 0 queue of
           (batch, currentBatchTokens, queue', effects) \<Rightarrow>
             (if length batch > 0
              then effects @ submitEffects gen cache batch
                     @ drainQueue gen cache (queue' @ (case arrivals of [] \<Rightarrow> [] | a # as \<Rightarrow> a))
                         (case arrivals of [] \<Rightarrow> [] | a # as \<Rightarrow> as)
              else effects @ drainQueue gen cache queue' arrivals)))"
  by pat_completeness auto

lemma buildBatch_queue_le:
  "buildBatch gen cache batch t queue = (b, t', q', effects) \<Longrightarrow> length q' \<le> length queue"
proof (induction queue arbitrary: batch t b t' q' effects)
  case Nil
  then show ?case by simp
next
  case (Cons item queue)
  then show ?case
    by (auto split: if_splits prod.splits simp: Let_def le_SucI)
qed

lemma buildBatch_queue_less:
  assumes "buildBatch gen cache [] 0 queue = (b, t', q', effects)" and "queue \<noteq> []"
  shows "length q' < length queue"
proof -
  obtain item rest where q: "queue = item # rest" using assms(2) by (cases queue) auto
  show ?thesis
    using assms(1) unfolding q
    by (auto split: if_splits prod.splits simp: Let_def MAX_BATCH_PAGES_def less_Suc_eq_le
             dest: buildBatch_queue_le)
qed

termination drainQueue
proof (relation "measure (\<lambda>(gen, cache, queue, arrivals). length queue + length (concat arrivals))",
    goal_cases)
  case 1
  then show ?case by simp
next
  case (2 gen cache queue arrivals b rest t rest' q' effects)
  then have "length q' < length queue"
    using buildBatch_queue_less[of gen cache queue b t q' effects] by simp
  then show ?case by (cases arrivals) auto
next
  case (3 gen cache queue arrivals b rest t rest' q' effects)
  then have "length q' < length queue"
    using buildBatch_queue_less[of gen cache queue b t q' effects] by simp
  then show ?case by simp
qed

declare drainQueue.simps [simp del]

lemma drainQueue_Nil [simp]: "drainQueue gen cache [] arrivals = []"
  by (subst drainQueue.simps) simp

text \<open>
  \<^verbatim>\<open>processSummaryQueue\<close>: a call made while another one is draining, or on an empty
  queue, returns at once.
\<close>

definition processSummaryQueue ::
    "bool \<Rightarrow> nat set \<Rightarrow> (nat \<rightharpoonup> string) \<Rightarrow> Page list \<Rightarrow> Page list list \<Rightarrow> Effect list" where
  "processSummaryQueue isProcessingQueue gen cache queue arrivals =
     (if isProcessingQueue \<or> queue = [] then [] else drainQueue gen cache queue arrivals)"

subsection \<open>Distributing the summaries of a batch\<close>

text \<open>\<^verbatim>\<open>pageNum.toString()\<close> of a page number: its decimal digits.\<close>

fun toString :: "nat \<Rightarrow> string" where
  "toString n =
     (if n < 10 then [char_of (48 + n)] else toString (n div 10) @ [char_of (48 + n mod 10)])"

definition startsWith :: "string \<Rightarrow> string \<Rightarrow> bool" where
  "startsWith s p \<longleftrightarrow> take (length p) s = p"

definition endsWith :: "string \<Rightarrow> string \<Rightarrow> bool" where
  "endsWith s p \<longleftrightarrow> length p \<le> length s \<and> drop (length s - length p) s = p"

definition fence :: string where
  "fence = [CHR 0x60, CHR 0x60, CHR 0x60]"

text \<open>\<^verbatim>\<open>.replace(/^<p>\n?/, "")\<close> for a prefix \<open>p\<close> the string is known to start with.\<close>

definition removeOpening :: "string \<Rightarrow> string \<Rightarrow> string" where
  "removeOpening p s =
     (let r = drop (length p) s in if startsWith r [CHR 0x0A] then drop 1 r else r)"

text \<open>\<^verbatim>\<open>.replace(/\n?```$/, "")\<close>: a closing fence at the very end, with the line feed before it.\<close>

definition removeClosing :: "string \<Rightarrow> string" where
  "removeClosing s =
     (if endsWith s fence
      then (let r = take (length s - 3) s in if endsWith r [CHR 0x0A] then take (length r - 1) r else r)
      else s)"

definition jsonText :: "string \<Rightarrow> string" where
  "jsonText fullSummary =
     (let t = trim fullSummary
      in if startsWith t (fence @ ''json'') then removeClosing (removeOpening (fence @ ''json'') t)
         else if startsWith t fence then removeClosing (removeOpening fence t)
         else t)"

text \<open>
  \<^verbatim>\<open>summaries[key]\<close> for a parsed value other than \<^verbatim>\<open>null\<close>: a member of an
  object (each key once, as a parsed object has them), an element of an array, a code unit
  of a string; \<open>None\<close> is \<^verbatim>\<open>undefined\<close>. The page number and its string form name
  the same property.
\<close>

fun getProperty :: "json \<Rightarrow> nat \<Rightarrow> json option" where
  "getProperty (JObj kvs) n = map_of kvs (toString n)"
| "getProperty (JArr xs) n = (if n < length xs then Some (xs ! n) else None)"
| "getProperty (JStr s) n = (if n < length s then Some (JStr [s ! n]) else None)"
| "getProperty v n = None"

text \<open>\<^verbatim>\<open>a || b\<close> on two property reads.\<close>

definition orElse :: "json option \<Rightarrow> json option \<Rightarrow> json option" where
  "orElse a b = (case a of Some v \<Rightarrow> if truthy v then a else b | None \<Rightarrow> b)"

text \<open>The body of \<^verbatim>\<open>pagesToProcess.forEach\<close>: a non-empty string is written.\<close>

definition pageSummaryEffects :: "json \<Rightarrow> Page \<Rightarrow> Effect list" where
  "pageSummaryEffects summaries p =
     (case orElse (getProperty summaries (pageNum p)) (getProperty summaries (pageNum p)) of
        Some (JStr summary) \<Rightarrow> if summary \<noteq> [] then [SetPageSummary (pageNum p) summary] else []
      | _ \<Rightarrow> [])"

text \<open>The \<^verbatim>\<open>catch (parseError)\<close> block.\<close>

definition parseFallback :: "Page list \<Rightarrow> string \<Rightarrow> Effect list" where
  "parseFallback pages fullSummary =
     (case pages of
        [] \<Rightarrow> []
      | p # ps \<Rightarrow> if trim fullSummary \<noteq> [] then [SetPageSummary (pageNum p) (trim fullSummary)] else [])"

text \<open>
  The end of \<^verbatim>\<open>generateBatchSummaries\<close>, once the response text \<open>fullSummary\<close> has
  been read. \<^verbatim>\<open>JSON.parse\<close> is a parameter: \<open>None\<close> when it throws. Reading a
  property of \<^verbatim>\<open>null\<close> throws inside the same \<^verbatim>\<open>try\<close>, at the first page.
\<close>

definition distributeSummaries ::
    "(string \<Rightarrow> json option) \<Rightarrow> Page list \<Rightarrow> string \<Rightarrow> Effect list" where
  "distributeSummaries parse pages fullSummary =
     (case parse (jsonText fullSummary) of
        None \<Rightarrow> parseFallback pages fullSummary
      | Some JNull \<Rightarrow> if pages = [] then [] else parseFallback pages fullSummary
      | Some summaries \<Rightarrow> concat (map (pageSummaryEffects summaries) pages))"

text \<open>
  A stand-in for \<^verbatim>\<open>JSON.parse\<close> in the evaluations below; it agrees with
  \<^verbatim>\<open>JSON.parse\<close> on every text evaluated there: one object is parsed, the other texts
  are not JSON.
\<close>

definition sampleParse :: "string \<Rightarrow> json option" where
  "sampleParse s =
     (if s = ''{\"1\":\"First page.\",\"2\":\"Second page.\"}''
      then Some (JObj [(''1'', JStr ''First page.''), (''2'', JStr ''Second page.'')])
      else None)"

section \<open>Notions used in the statements\<close>



text \<open>The upstream calls among the steps of a request, in order.\<close>

definition invoked :: "Step list \<Rightarrow> Attempt list" where
  "invoked steps = concat (map (\<lambda>s. case s of Invoke a \<Rightarrow> [a] | _ \<Rightarrow> []) steps)"

text \<open>
  A poll that finds the job queued or processing, the events such polls send, and the
  stream while it has seen nothing else: open, with no terminal status recorded.
\<close>

definition pending :: "PollOutcome \<Rightarrow> bool" where
  "pending outcome \<longleftrightarrow>
     (case outcome of
        Found s \<Rightarrow> status s = Queued \<or> status s = Processing
      | _ \<Rightarrow> False)"

definition statusOrProgress :: "Event \<Rightarrow> bool" where
  "statusOrProgress e \<longleftrightarrow>
     (case e of StatusEvent s \<Rightarrow> True | ProgressEvent c \<Rightarrow> True | _ \<Rightarrow> False)"

definition watching :: "StreamState \<Rightarrow> bool" where
  "watching st \<longleftrightarrow>
     \<not> closed st \<and> lastStatus st \<noteq> Some Completed \<and> lastStatus st \<noteq> Some Failed
     \<and> list_all statusOrProgress (sent st)"

text \<open>
  The bounds of a batch: at most \<^verbatim>\<open>MAX_BATCH_PAGES\<close> pages, and at most
  \<^verbatim>\<open>MAX_BATCH_TOKENS\<close> estimated tokens unless it is a single page.
\<close>

definition batchWithinLimits :: "Page list \<Rightarrow> bool" where
  "batchWithinLimits batch \<longleftrightarrow>
     length batch \<le> MAX_BATCH_PAGES
     \<and> (sum_list (map estimatedTokens batch) \<le> MAX_BATCH_TOKENS \<or> length batch = 1)"

text \<open>The number of batches submitted among the effects of a drain.\<close>

definition submittedCount :: "Effect list \<Rightarrow> nat" where
  "submittedCount effects =
     length (filter (\<lambda>e. case e of SubmitBatch b \<Rightarrow> True | _ \<Rightarrow> False) effects)"

text \<open>The number of characters of a text that are not whitespace.\<close>

definition nonWhitespaceCount :: "string \<Rightarrow> nat" where
  "nonWhitespaceCount s = length (filter (\<lambda>c. \<not> isWhitespace c) s)"

text \<open>Inputs for the evaluations below.\<close>

definition sampleEnv :: Env where
  "sampleEnv = [''GROQ_API_KEY'' \<mapsto> ''gsk-1'', ''GITHUB_TOKEN'' \<mapsto> ''ghp-1'']"

definition noKeysEnv :: Env where
  "noKeysEnv = Map.empty"




definition sampleUpstream :: Upstream where
  "sampleUpstream a =
     (if attemptProvider a = Groq then Inl ''429 rate limit reached'' else Inr [''An'', '' answer''])"

definition groqSelection :: ModelSelection where
  "groqSelection = selectModel \<lparr>inputText = ''entropy'', hasImage = None, historyLength = None,
       taskType = Some Simple, wordCount = Some 1\<rparr>"


definition sampleStore :: "QueueEntry list" where
  "sampleStore =
     enqueue ''job-5'' Summarize 5
       (enqueue ''job-4'' Explain 4
         (enqueue ''job-3'' SummarizeBatch 3
           (enqueue ''job-2'' Explain 2
             (enqueue ''job-1'' Summarize 1 []))))"

definition sampleClaimed :: QueueEntry where
  "sampleClaimed = \<lparr>entryType = Explain, entryPriority = 10,
      entryStatus = \<lparr>jobId = ''job-2'', status = Queued, position = None, progress = None,
                      result = None, error = None, createdAt = 2,
                      startedAt = None, completedAt = None\<rparr>\<rparr>"

definition sampleStatus :: JobStatus where
  "sampleStatus = \<lparr>jobId = ''job-1'', status = Processing, position = None, progress = None,
      result = None, error = None, createdAt = 1, startedAt = Some 2, completedAt = None\<rparr>"

definition failedResult :: JobResult where
  "failedResult = \<lparr>success = False, resultData = None, resultError = Some ''empty response'',
      resultProvider = Some ''groq'', resultModel = Some ''llama-3.1-8b-instant''\<rparr>"

definition textResult :: JobResult where
  "textResult = \<lparr>success = True, resultData = Some (JStr ''Disorder, counted.''),
      resultError = None, resultProvider = Some ''groq'', resultModel = Some ''llama-3.1-8b-instant''\<rparr>"

definition longPage :: "nat \<Rightarrow> Page" where
  "longPage n = \<lparr>pageNum = n, pageText = replicate 52000 CHR ''a''\<rparr>"

definition shortPage :: Page where
  "shortPage = \<lparr>pageNum = 1, pageText = ''short''\<rparr>"

definition hugePage :: Page where
  "hugePage = \<lparr>pageNum = 7, pageText = replicate 120000 CHR ''a''\<rparr>"

definition lateShortPage :: Page where
  "lateShortPage = \<lparr>pageNum = 9, pageText = ''   p. 9  ''\<rparr>"

definition spacedPage :: Page where
  "spacedPage = \<lparr>pageNum = 4, pageText = ''a b c d e f''\<rparr>"

definition twoPages :: "Page list" where
  "twoPages = [\<lparr>pageNum = 1, pageText = ''The first page of the document.''\<rparr>,
               \<lparr>pageNum = 2, pageText = ''The second page of the document.''\<rparr>]"

definition defaultInput :: RouterInput where
  "defaultInput = \<lparr>inputText = ''entropy'', hasImage = None, historyLength = None,
       taskType = None, wordCount = None\<rparr>"

section \<open>Provider router: properties\<close>

text \<open>
  C3, as stated, fails: for a complex-reasoning task \<^verbatim>\<open>selectModel\<close> returns
  \<open>huggingface\<close>, the provider the specification calls alternative-reasoning, and not
  the reasoning-tier provider \<open>github\<close>.
\<close>

theorem selectModel_reasoning_tier_counterexample:
  "provider (selectModel (defaultInput\<lparr>taskType := Some ComplexReasoning\<rparr>)) = Huggingface
   \<and> selectModel_spec (defaultInput\<lparr>taskType := Some ComplexReasoning\<rparr>) = reasoningTierProvider
   \<and> reasoningTierProvider \<noteq> Huggingface"
  by (simp add: selectModel_def selectModel_spec_def reasoningTierProvider_def defaultInput_def
      effectiveHasImage_def effectiveWordCount_def effectiveTaskType_def splitLength_def
      isWhitespace_def)

text \<open>
  C3, amended: \<^verbatim>\<open>selectModel\<close> applies its rules in fixed order, the first match
  winning. It returns \<open>gemini\<close> when \<^verbatim>\<open>hasImage\<close> is true, or the word count is
  above 10000, or the text is longer than 50000, where the word count is the given
  \<^verbatim>\<open>wordCount\<close> or, when that is absent or 0, the number of pieces of the text split at
  whitespace; otherwise \<open>huggingface\<close> for a complex-reasoning task; otherwise
  \<open>siliconflow\<close> when \<^verbatim>\<open>historyLength\<close> is above 10; otherwise \<open>groq\<close>. So an
  input with \<^verbatim>\<open>wordCount\<close> 15000 gives \<open>gemini\<close> whatever its other fields, and
  one with \<^verbatim>\<open>wordCount\<close> 50, task type \<^verbatim>\<open>simple\<close>, no image, no history and a text
  of at most 50000 gives \<open>groq\<close>.
\<close>

theorem selectModel_rule_order:
  "provider (selectModel input) =
     (if hasImage input = Some True
         \<or> (case wordCount input of
               Some n \<Rightarrow> n > 10000 \<or> (n = 0 \<and> splitLength (inputText input) > 10000)
             | None \<Rightarrow> splitLength (inputText input) > 10000)
         \<or> length (inputText input) > 50000
      then Gemini
      else if taskType input = Some ComplexReasoning then Huggingface
      else if (case historyLength input of Some n \<Rightarrow> n > 10 | None \<Rightarrow> False) then Siliconflow
      else Groq)
   \<and> (wordCount input = Some 15000 \<longrightarrow> provider (selectModel input) = Gemini)
   \<and> (wordCount input = Some 50 \<and> taskType input = Some Simple \<and> hasImage input = None
        \<and> historyLength input = None \<and> length (inputText input) \<le> 50000
      \<longrightarrow> provider (selectModel input) = Groq)"
  by (auto simp: selectModel_def effectiveHasImage_def effectiveWordCount_def
      effectiveTaskType_def effectiveHistoryLength_def split: option.splits)

text \<open>The rule order at the two inputs of the example and at one input for each other rule.\<close>

theorem selectModel_rule_order_witness:
  "provider (selectModel (defaultInput\<lparr>wordCount := Some 15000\<rparr>)) = Gemini
   \<and> provider (selectModel (defaultInput\<lparr>wordCount := Some 50, taskType := Some Simple\<rparr>)) = Groq
   \<and> provider (selectModel (defaultInput\<lparr>taskType := Some ComplexReasoning\<rparr>)) = Huggingface
   \<and> provider (selectModel (defaultInput\<lparr>historyLength := Some 11\<rparr>)) = Siliconflow"
  using selectModel_rule_order [of "defaultInput\<lparr>wordCount := Some 15000\<rparr>"]
    selectModel_rule_order [of "defaultInput\<lparr>wordCount := Some 50, taskType := Some Simple\<rparr>"]
    selectModel_rule_order [of "defaultInput\<lparr>taskType := Some ComplexReasoning\<rparr>"]
    selectModel_rule_order [of "defaultInput\<lparr>historyLength := Some 11\<rparr>"]
  by (simp add: defaultInput_def splitLength_def isWhitespace_def)

section \<open>Fallback chains: properties\<close>

lemma invoked_simps [simp]:
  "invoked [] = []"
  "invoked (Invoke a # steps) = a # invoked steps"
  "invoked (CheckApiKeys p # steps) = invoked steps"
  "invoked (SelectModel # steps) = invoked steps"
  "invoked (xs @ ys) = invoked xs @ invoked ys"
  by (simp_all add: invoked_def)



text \<open>
  C4: the list walked when the selected provider has no key and the list walked when its
  call throws are not the same list. For \<open>groq\<close> the first is
  \<open>[siliconflow, huggingface, gemini, github]\<close> and the second stops at \<open>gemini\<close>:
  with keys for \<open>groq\<close> and \<open>github\<close> only and a \<open>groq\<close> call that throws,
  \<^verbatim>\<open>streamFromProvider\<close> rethrows without trying \<open>github\<close>, which the endpoint
  reaches when \<open>groq\<close> has no key.
\<close>

theorem fallback_lists_differ:
  "routeFallbackProviders Groq = [Siliconflow, Huggingface, Gemini, Github]
   \<and> adapterFallbackProviders Groq = [Siliconflow, Huggingface, Gemini]
   \<and> available (checkApiKeys sampleEnv Github)
   \<and> POST [''GITHUB_TOKEN'' \<mapsto> ''ghp-1''] sampleUpstream (Body (JObj [(''term'', JStr ''entropy'')])) =
      ([SelectModel, CheckApiKeys Groq, CheckApiKeys Siliconflow, CheckApiKeys Huggingface,
        CheckApiKeys Gemini, CheckApiKeys Github,
        Invoke \<lparr>attemptProvider = Github, attemptBaseURL = ''https://models.inference.ai.azure.com'',
                attemptModel = ''gpt-4o''\<rparr>],
       \<lparr>httpStatus = 200, responseBody = EventStream [''An'', '' answer'']\<rparr>)
   \<and> streamFromProvider sampleEnv sampleUpstream groqSelection =
      ([Invoke \<lparr>attemptProvider = Groq, attemptBaseURL = ''https://api.groq.com/openai/v1'',
                attemptModel = ''llama-3.1-8b-instant''\<rparr>, CheckApiKeys Siliconflow,
        CheckApiKeys Huggingface, CheckApiKeys Gemini], Inl ''429 rate limit reached'')"
  by code_simp




section \<open>Explain endpoint and job submission: properties\<close>

lemma findFallback_no_keys:
  "\<forall>p. \<not> available (checkApiKeys env p) \<Longrightarrow> findFallback env ps = (map CheckApiKeys ps, None)"
  by (induction ps) auto

lemma no_keys_unavailable:
  assumes "\<forall>key\<in>set [''GROQ_API_KEY'', ''SILICONFLOW_API_KEY'', ''HUGGINGFACE_API_KEY'',
                       ''GOOGLE_GENERATIVE_AI_API_KEY'', ''GITHUB_TOKEN''].
             env key = None \<or> env key = Some []"
  shows "\<forall>p. \<not> available (checkApiKeys env p)"
proof
  fix p show "\<not> available (checkApiKeys env p)"
    using assms by (cases p) (auto simp: checkApiKeys_def)
qed

text \<open>
  C7: when none of the five keys is set, a job submission of any type ends with an explicit
  error and no upstream call. A request to the explain endpoint with a term gets the status
  500 and the message that names the five missing keys, after a key check of the selected
  provider and of every fallback provider. A \<open>summarize\<close> or \<open>summarize-batch\<close>
  submission, as the specification describes it, fails with \<open>ProviderUnavailable\<close> after
  the same checks. Both are total functions: they answer.
\<close>

theorem no_credentials_explicit_error:
  assumes "\<forall>key\<in>set [''GROQ_API_KEY'', ''SILICONFLOW_API_KEY'', ''HUGGINGFACE_API_KEY'',
                       ''GOOGLE_GENERATIVE_AI_API_KEY'', ''GITHUB_TOKEN''].
             env key = None \<or> env key = Some []"
  shows "(map_of kvs ''term'' = Some (JStr t) \<and> t \<noteq> [] \<longrightarrow>
            (\<exists>p. POST env upstream (Body (JObj kvs)) =
               (SelectModel # CheckApiKeys p
                  # map CheckApiKeys (filter (\<lambda>q. q \<noteq> p) [Groq, Siliconflow, Huggingface, Gemini, Github]),
                \<lparr>httpStatus = 500,
                 responseBody = JsonError ''No API keys configured. Please configure at least one provider (GROQ_API_KEY, SILICONFLOW_API_KEY, HUGGINGFACE_API_KEY, GOOGLE_GENERATIVE_AI_API_KEY, or GITHUB_TOKEN) in your environment variables.''\<rparr>)))
       \<and> (\<exists>p. submitSummaryJob env upstream input =
               (SelectModel # CheckApiKeys p
                  # map CheckApiKeys (filter (\<lambda>q. q \<noteq> p) [Groq, Siliconflow, Huggingface, Gemini, Github]),
                Inl ProviderUnavailable))"
proof -
  note nk = no_keys_unavailable[OF assms]
  have a: "map_of kvs ''term'' = Some (JStr t) \<and> t \<noteq> [] \<longrightarrow>
            (\<exists>p. POST env upstream (Body (JObj kvs)) =
               (SelectModel # CheckApiKeys p
                  # map CheckApiKeys (filter (\<lambda>q. q \<noteq> p) [Groq, Siliconflow, Huggingface, Gemini, Github]),
                \<lparr>httpStatus = 500,
                 responseBody = JsonError ''No API keys configured. Please configure at least one provider (GROQ_API_KEY, SILICONFLOW_API_KEY, HUGGINGFACE_API_KEY, GOOGLE_GENERATIVE_AI_API_KEY, or GITHUB_TOKEN) in your environment variables.''\<rparr>))"
    using nk
    by (simp add: POST_def POST_fields_def Let_def findFallback_no_keys routeFallbackProviders_def
        noKeysMessage_def)
  have b: "\<exists>p. submitSummaryJob env upstream input =
               (SelectModel # CheckApiKeys p
                  # map CheckApiKeys (filter (\<lambda>q. q \<noteq> p) [Groq, Siliconflow, Huggingface, Gemini, Github]),
                Inl ProviderUnavailable)"
    using nk
    by (simp add: submitSummaryJob_def resolveProvider_def Let_def findFallback_no_keys
        fallbackOrder_def fastProvider_def highVolumeProvider_def alternativeReasoningProvider_def
        visionProvider_def reasoningTierProvider_def)
  from a b show ?thesis by blast
qed

text \<open>The two submissions with no environment variable set.\<close>

theorem no_credentials_explicit_error_witness:
  "noKeysEnv ''GROQ_API_KEY'' = None \<and> noKeysEnv ''SILICONFLOW_API_KEY'' = None
   \<and> noKeysEnv ''HUGGINGFACE_API_KEY'' = None
   \<and> noKeysEnv ''GOOGLE_GENERATIVE_AI_API_KEY'' = None \<and> noKeysEnv ''GITHUB_TOKEN'' = None
   \<and> POST noKeysEnv sampleUpstream (Body (JObj [(''term'', JStr ''entropy'')])) =
      ([SelectModel, CheckApiKeys Groq, CheckApiKeys Siliconflow, CheckApiKeys Huggingface,
        CheckApiKeys Gemini, CheckApiKeys Github],
       \<lparr>httpStatus = 500, responseBody = JsonError noKeysMessage\<rparr>)
   \<and> submitSummaryJob noKeysEnv sampleUpstream defaultInput =
      ([SelectModel, CheckApiKeys Groq, CheckApiKeys Siliconflow, CheckApiKeys Huggingface,
        CheckApiKeys Gemini, CheckApiKeys Github], Inl ProviderUnavailable)"
proof -
  have h: "\<forall>key\<in>set [''GROQ_API_KEY'', ''SILICONFLOW_API_KEY'', ''HUGGINGFACE_API_KEY'',
                 ''GOOGLE_GENERATIVE_AI_API_KEY'', ''GITHUB_TOKEN''].
             noKeysEnv key = None \<or> noKeysEnv key = Some []"
    by (simp add: noKeysEnv_def)
  have e1: "POST noKeysEnv sampleUpstream (Body (JObj [(''term'', JStr ''entropy'')])) =
      ([SelectModel, CheckApiKeys Groq, CheckApiKeys Siliconflow, CheckApiKeys Huggingface,
        CheckApiKeys Gemini, CheckApiKeys Github],
       \<lparr>httpStatus = 500, responseBody = JsonError noKeysMessage\<rparr>)"
    by code_simp
  have e2: "submitSummaryJob noKeysEnv sampleUpstream defaultInput =
      ([SelectModel, CheckApiKeys Groq, CheckApiKeys Siliconflow, CheckApiKeys Huggingface,
        CheckApiKeys Gemini, CheckApiKeys Github], Inl ProviderUnavailable)"
    by code_simp
  note t = no_credentials_explicit_error [OF h,
      where kvs = "[(''term'', JStr ''entropy'')]" and t = "''entropy''"
        and upstream = sampleUpstream and input = defaultInput]
  show ?thesis using t e1 e2 by (simp add: noKeysEnv_def)
qed

text \<open>
  C10, as stated, fails: the JSON body \<^verbatim>\<open>null\<close> has no \<^verbatim>\<open>term\<close> field, and the
  destructuring throws on it, so the \<^verbatim>\<open>catch\<close> block answers the status 500.
\<close>

theorem null_body_counterexample:
  "POST sampleEnv sampleUpstream (Body JNull) =
     ([], \<lparr>httpStatus = 500, responseBody = JsonError nullDestructureMessage\<rparr>)"
  by code_simp

text \<open>
  C10, amended: a request whose JSON body is not \<^verbatim>\<open>null\<close> and has no \<^verbatim>\<open>term\<close>, or
  a \<^verbatim>\<open>term\<close> that is not a non-empty string, gets the status 400 and the message
  \<^verbatim>\<open>Term is required\<close>, before any model selection, key check or upstream call (the
  list of steps is empty).
\<close>

theorem POST_term_required:
  assumes "v \<noteq> JNull"
      and "\<forall>kvs t. v = JObj kvs \<and> map_of kvs ''term'' = Some (JStr t) \<longrightarrow> t = []"
  shows "POST env upstream (Body v) =
           ([], \<lparr>httpStatus = 400, responseBody = JsonError ''Term is required''\<rparr>)"
proof (cases v)
  case (JObj kvs)
  then show ?thesis
    using assms(2) by (auto simp: POST_def POST_fields_def split: option.splits json.splits)
qed (use assms(1) in \<open>simp_all add: POST_def POST_fields_def\<close>)

text \<open>A body without a term, one whose term is a number, and one that is an array.\<close>

theorem POST_term_required_witness:
  "POST sampleEnv sampleUpstream (Body (JObj [(''taskType'', JStr ''simple'')])) =
      ([], \<lparr>httpStatus = 400, responseBody = JsonError ''Term is required''\<rparr>)
   \<and> POST sampleEnv sampleUpstream (Body (JObj [(''term'', JNum 42)])) =
      ([], \<lparr>httpStatus = 400, responseBody = JsonError ''Term is required''\<rparr>)
   \<and> POST sampleEnv sampleUpstream (Body (JArr [])) =
      ([], \<lparr>httpStatus = 400, responseBody = JsonError ''Term is required''\<rparr>)"
  using POST_term_required [where v = "JObj [(''taskType'', JStr ''simple'')]"
      and env = sampleEnv and upstream = sampleUpstream]
    POST_term_required [where v = "JObj [(''term'', JNum 42)]"
      and env = sampleEnv and upstream = sampleUpstream]
    POST_term_required [where v = "JArr []" and env = sampleEnv and upstream = sampleUpstream]
  by simp

section \<open>Job queue: properties\<close>

lemma claimedBefore_refl: "claimedBefore a a"
  by (simp add: claimedBefore_def)

lemma claimedBefore_trans: "claimedBefore a b \<Longrightarrow> claimedBefore b c \<Longrightarrow> claimedBefore a c"
  by (auto simp: claimedBefore_def)

lemma not_beats_iff: "\<not> beats x b \<longleftrightarrow> claimedBefore b x"
  by (auto simp: beats_def claimedBefore_def)

lemma bestOf_in: "bestOf b xs \<in> set (b # xs)"
  by (induction xs arbitrary: b) auto

lemma bestOf_dominates:
  "claimedBefore (bestOf b xs) b \<and> (\<forall>k\<in>set xs. claimedBefore (bestOf b xs) k)"
proof (induction xs arbitrary: b)
  case Nil
  then show ?case by (simp add: claimedBefore_refl)
next
  case (Cons x xs)
  let ?b' = "if beats x b then x else b"
  have ih: "claimedBefore (bestOf ?b' xs) ?b'" "\<forall>k\<in>set xs. claimedBefore (bestOf ?b' xs) k"
    using Cons.IH[of ?b'] by auto
  have b: "claimedBefore ?b' b"
    by (auto simp: claimedBefore_refl beats_def claimedBefore_def)
  have x: "claimedBefore ?b' x"
    using not_beats_iff[of x b] by (auto simp: claimedBefore_refl)
  show ?case
    using ih b x claimedBefore_trans[of "bestOf ?b' xs" ?b'] by simp
qed

lemma claimNext_Some:
  assumes "claimNext now store = (Some j, store')"
  shows "j \<in> set store \<and> isQueued j \<and> (\<forall>k\<in>set store. isQueued k \<longrightarrow> claimedBefore j k)
         \<and> store' = markClaimed now j store"
proof -
  obtain x xs where f: "filter isQueued store = x # xs"
    using assms by (cases "filter isQueued store") (auto simp: claimNext_def)
  then have j: "j = bestOf x xs" and s: "store' = markClaimed now j store"
    using assms by (auto simp: claimNext_def Let_def)
  have "j \<in> set (filter isQueued store)" using bestOf_in[of x xs] f j by simp
  moreover have "\<forall>k\<in>set (filter isQueued store). claimedBefore j k"
    using bestOf_dominates[of x xs] f j by simp
  ultimately show ?thesis using s by auto
qed

lemma claimNext_None:
  "claimNext now store = (None, store') \<longleftrightarrow> filter isQueued store = [] \<and> store' = store"
  by (cases "filter isQueued store") (auto simp: claimNext_def Let_def)

lemma claimed_not_queued:
  "\<not> isQueued (x\<lparr>entryStatus := (entryStatus x)\<lparr>status := Processing, startedAt := Some now\<rparr>\<rparr>)"
  by (simp add: isQueued_def)

lemma markClaimed_queued:
  "j \<in> set store \<Longrightarrow> isQueued j \<Longrightarrow>
     \<exists>pre post. filter isQueued store = pre @ j # post
                 \<and> filter isQueued (markClaimed now j store) = pre @ post"
proof (induction store)
  case Nil
  then show ?case by simp
next
  case (Cons x store)
  show ?case
  proof (cases "x = j")
    case True
    then have "filter isQueued (x # store) = [] @ j # filter isQueued store"
      using Cons.prems by simp
    moreover have "filter isQueued (markClaimed now j (x # store)) = [] @ filter isQueued store"
      using True claimed_not_queued by simp
    ultimately show ?thesis by blast
  next
    case False
    then have "j \<in> set store" using Cons.prems by simp
    then obtain pre post where pp: "filter isQueued store = pre @ j # post"
        "filter isQueued (markClaimed now j store) = pre @ post"
      using Cons.IH Cons.prems by blast
    show ?thesis
    proof (cases "isQueued x")
      case True
      then have "filter isQueued (x # store) = (x # pre) @ j # post"
        "filter isQueued (markClaimed now j (x # store)) = (x # pre) @ post"
        using pp False by simp_all
      then show ?thesis by blast
    next
      case q: False
      then have "filter isQueued (x # store) = pre @ j # post"
        "filter isQueued (markClaimed now j (x # store)) = pre @ post"
        using pp False by simp_all
      then show ?thesis by blast
    qed
  qed
qed

lemma claimAll_subset: "set (claimAll nows store) \<subseteq> set (filter isQueued store)"
proof (induction nows arbitrary: store)
  case Nil
  then show ?case by simp
next
  case (Cons now nows)
  show ?case
  proof (cases "claimNext now store")
    case (Pair r store')
    show ?thesis
    proof (cases r)
      case None
      then show ?thesis using Pair by simp
    next
      case (Some j)
      then have c: "j \<in> set store" "isQueued j" "store' = markClaimed now j store"
        using claimNext_Some[of now store j store'] Pair by auto
      then obtain pre post where pp: "filter isQueued store = pre @ j # post"
        "filter isQueued store' = pre @ post"
        using markClaimed_queued[of j store now] by blast
      have "set (claimAll nows store') \<subseteq> set (pre @ post)" using Cons.IH[of store'] pp by simp
      then show ?thesis using Pair Some pp by auto
    qed
  qed
qed

lemma claimAll_sorted: "sorted_wrt claimedBefore (claimAll nows store)"
proof (induction nows arbitrary: store)
  case Nil
  then show ?case by simp
next
  case (Cons now nows)
  show ?case
  proof (cases "claimNext now store")
    case (Pair r store')
    show ?thesis
    proof (cases r)
      case None
      then show ?thesis using Pair by simp
    next
      case (Some j)
      then have c: "j \<in> set store" "isQueued j" "store' = markClaimed now j store"
        and d: "\<forall>k\<in>set store. isQueued k \<longrightarrow> claimedBefore j k"
        using claimNext_Some[of now store j store'] Pair by auto
      then obtain pre post where pp: "filter isQueued store = pre @ j # post"
        "filter isQueued store' = pre @ post"
        using markClaimed_queued[of j store now] by blast
      have "set (claimAll nows store') \<subseteq> set (pre @ post)"
        using claimAll_subset[of nows store'] pp by simp
      also have "\<dots> \<subseteq> set (filter isQueued store)" using pp by auto
      finally have "\<forall>k\<in>set (claimAll nows store'). claimedBefore j k" using d by auto
      then show ?thesis using Pair Some Cons.IH[of store'] by simp
    qed
  qed
qed

lemma claimAll_length:
  "length (claimAll nows store) = min (length nows) (length (filter isQueued store))"
proof (induction nows arbitrary: store)
  case Nil
  then show ?case by simp
next
  case (Cons now nows)
  show ?case
  proof (cases "claimNext now store")
    case (Pair r store')
    show ?thesis
    proof (cases r)
      case None
      then show ?thesis using Pair claimNext_None[of now store store'] by simp
    next
      case (Some j)
      then have c: "j \<in> set store" "isQueued j" "store' = markClaimed now j store"
        using claimNext_Some[of now store j store'] Pair by auto
      then obtain pre post where pp: "filter isQueued store = pre @ j # post"
        "filter isQueued store' = pre @ post"
        using markClaimed_queued[of j store now] by blast
      then show ?thesis using Pair Some Cons.IH[of store'] by simp
    qed
  qed
qed

text \<open>
  C6: the priorities are \<open>explain\<close> 10, \<open>summarize-batch\<close> 5 and \<open>summarize\<close> 1, and
  \<^verbatim>\<open>enqueue\<close> gives a job the priority of its type. Each call of \<^verbatim>\<open>claimNext\<close> that
  returns a job returns a queued one that no queued job precedes: none has a higher
  priority, and none of equal priority was created earlier. So the jobs claimed by
  successive calls come in decreasing priority, in order of creation within one priority;
  they are queued jobs of the store, and as many as there are calls or queued jobs.
\<close>

theorem claimNext_priority_order:
  "JOB_PRIORITIES Explain = 10 \<and> JOB_PRIORITIES SummarizeBatch = 5 \<and> JOB_PRIORITIES Summarize = 1
   \<and> map entryPriority (enqueue jid ty t store) = map entryPriority store @ [JOB_PRIORITIES ty]
   \<and> (claimNext now store = (Some j, store') \<longrightarrow>
        j \<in> set store \<and> isQueued j \<and> (\<forall>k\<in>set store. isQueued k \<longrightarrow> claimedBefore j k))
   \<and> sorted_wrt claimedBefore (claimAll nows store)
   \<and> set (claimAll nows store) \<subseteq> set (filter isQueued store)
   \<and> length (claimAll nows store) = min (length nows) (length (filter isQueued store))"
proof -
  have "map entryPriority (enqueue jid ty t store) = map entryPriority store @ [JOB_PRIORITIES ty]"
    by (simp add: enqueue_def)
  moreover have "claimNext now store = (Some j, store') \<longrightarrow>
        j \<in> set store \<and> isQueued j \<and> (\<forall>k\<in>set store. isQueued k \<longrightarrow> claimedBefore j k)"
    using claimNext_Some[of now store j store'] by blast
  ultimately show ?thesis
    using claimAll_sorted[of nows store] claimAll_subset[of nows store]
      claimAll_length[of nows store]
    by simp
qed

text \<open>
  Five jobs submitted in the order \<open>summarize\<close>, \<open>explain\<close>, \<open>summarize-batch\<close>,
  \<open>explain\<close>, \<open>summarize\<close> are claimed as the two \<open>explain\<close> jobs, the batch, and
  the two \<open>summarize\<close> jobs, each pair in order of creation.
\<close>

theorem claimNext_priority_order_witness:
  "fst (claimNext 10 sampleStore) = Some sampleClaimed
   \<and> sampleClaimed \<in> set sampleStore \<and> isQueued sampleClaimed
   \<and> map (\<lambda>e. (jobId (entryStatus e), entryPriority e, createdAt (entryStatus e)))
        (claimAll [10, 11, 12, 13, 14, 15, 16] sampleStore) =
      [(''job-2'', 10, 2), (''job-4'', 10, 4), (''job-3'', 5, 3), (''job-1'', 1, 1), (''job-5'', 1, 5)]
   \<and> sorted_wrt claimedBefore (claimAll [10, 11, 12, 13, 14, 15, 16] sampleStore)
   \<and> length (claimAll [10, 11, 12, 13, 14, 15, 16] sampleStore) = 5"
proof -
  have c: "claimNext 10 sampleStore = (Some sampleClaimed, snd (claimNext 10 sampleStore))"
    by code_simp
  have m: "map (\<lambda>e. (jobId (entryStatus e), entryPriority e, createdAt (entryStatus e)))
        (claimAll [10, 11, 12, 13, 14, 15, 16] sampleStore) =
      [(''job-2'', 10, 2), (''job-4'', 10, 4), (''job-3'', 5, 3), (''job-1'', 1, 1), (''job-5'', 1, 5)]"
    by code_simp
  have l: "length (filter isQueued sampleStore) = 5"
    by code_simp
  note t = claimNext_priority_order [where now = 10 and store = sampleStore and j = sampleClaimed
      and store' = "snd (claimNext 10 sampleStore)" and nows = "[10, 11, 12, 13, 14, 15, 16]"]
  have a: "fst (claimNext 10 sampleStore) = Some sampleClaimed"
    using c by (metis fst_conv)
  have b: "sampleClaimed \<in> set sampleStore \<and> isQueued sampleClaimed"
    using t c by blast
  have s: "sorted_wrt claimedBefore (claimAll [10, 11, 12, 13, 14, 15, 16] sampleStore)"
    using t by blast
  have "length (claimAll [10, 11, 12, 13, 14, 15, 16] sampleStore) =
      min (length [10, 11, 12, 13, 14, 15, 16::nat]) (length (filter isQueued sampleStore))"
    using t by blast
  then have n: "length (claimAll [10, 11, 12, 13, 14, 15, 16] sampleStore) = 5"
    by (simp only: l list.size)
  from a b m s n show ?thesis by blast
qed

section \<open>Status stream: properties\<close>

lemma closed_foldl_poll: "closed st \<Longrightarrow> foldl poll st outcomes = st"
  by (induction outcomes) (simp_all add: poll_def)

lemma poll_pending_watching:
  assumes "watching st" and "pending outcome"
  shows "watching (poll st outcome)"
proof -
  obtain s where o: "outcome = Found s" and s: "status s = Queued \<or> status s = Processing"
    using assms(2) by (cases outcome) (auto simp: pending_def)
  have p: "list_all statusOrProgress (progressEvents s)"
    by (auto simp: progressEvents_def statusOrProgress_def split: option.splits Progress.splits)
  show ?thesis
    using assms(1) s p unfolding o
    by (auto simp: watching_def poll_def sendEvent_def statusOrProgress_def)
qed

lemma foldl_pending_watching:
  "watching st \<Longrightarrow> list_all pending outcomes \<Longrightarrow> watching (foldl poll st outcomes)"
  by (induction outcomes arbitrary: st) (simp_all add: poll_pending_watching)

lemma watching_initial: "watching initialStream"
  by (simp add: watching_def initialStream_def)

lemma poll_failed:
  assumes "watching st" and "status s = Failed"
  shows "poll st (Found s) =
           st\<lparr>sent := sent st @ [ErrorEvent (failureMessage s), DoneSentinel], closed := True\<rparr>"
  using assms by (auto simp: watching_def poll_def sendEvent_def closeStream_def)

lemma poll_completed:
  assumes "watching st" and "status s = Completed" and "result s = Some r"
  shows "poll st (Found s) =
           st\<lparr>sent := sent st @ resultEvents r @ [DoneSentinel], closed := True\<rparr>"
  using assms by (auto simp: watching_def poll_def sendEvent_def closeStream_def)


lemma pending_iff:
  "list_all pending pre \<longleftrightarrow>
     (\<forall>outcome\<in>set pre. \<exists>js. outcome = Found js \<and> (status js = Queued \<or> status js = Processing))"
proof -
  have "pending outcome \<longleftrightarrow>
      (\<exists>js. outcome = Found js \<and> (status js = Queued \<or> status js = Processing))" for outcome
    by (cases outcome) (simp_all add: pending_def)
  then show ?thesis by (simp add: list_all_iff)
qed

lemma watching_sent:
  "watching st \<Longrightarrow> set (sent st) \<subseteq> insert (StatusEvent Processing) (range ProgressEvent)
     \<Longrightarrow> pending outcome
     \<Longrightarrow> set (sent (poll st outcome)) \<subseteq> insert (StatusEvent Processing) (range ProgressEvent)"
  by (cases outcome)
    (auto simp: watching_def pending_def poll_def sendEvent_def progressEvents_def
      split: option.splits Progress.splits if_splits)

lemma foldl_pending_sent:
  "watching st \<Longrightarrow> set (sent st) \<subseteq> insert (StatusEvent Processing) (range ProgressEvent)
     \<Longrightarrow> list_all pending outcomes
     \<Longrightarrow> set (sent (foldl poll st outcomes)) \<subseteq> insert (StatusEvent Processing) (range ProgressEvent)"
proof (induction outcomes arbitrary: st)
  case Nil
  then show ?case by simp
next
  case (Cons outcome outcomes)
  then show ?case
    using poll_pending_watching[of st outcome] watching_sent[of st outcome] by simp
qed

text \<open>
  C2, as stated, fails: a job that completes with a result that is not successful gets the
  sentinel and no \<^verbatim>\<open>result\<close> event.
\<close>

theorem stream_completed_without_result_event_counterexample:
  "sent (runStream [Found sampleStatus,
                    Found (sampleStatus\<lparr>status := Completed, result := Some failedResult\<rparr>)]) =
     [StatusEvent Processing, DoneSentinel]"
  by code_simp

text \<open>
  C2, amended: let the polls so far have found the job queued or processing. When a poll
  finds it failed, the stream sends exactly one \<^verbatim>\<open>error\<close> event, with the stored error
  message (or \<^verbatim>\<open>"Job failed"\<close> when there is none or it is empty), then the sentinel
  once, and closes. When a poll finds it completed with a result record, the stream sends
  one \<^verbatim>\<open>result\<close> event that carries the data when the result is successful and its
  data is a non-empty string, an object or an array, and no \<^verbatim>\<open>result\<close> event
  otherwise, then the sentinel once, and closes. Nothing is sent after the sentinel,
  whatever later polls would find, and before these events only \<^verbatim>\<open>status\<close> and
  \<^verbatim>\<open>progress\<close> events were sent.
\<close>

theorem stream_terminates:
  assumes "\<forall>outcome\<in>set pre. \<exists>js. outcome = Found js \<and> (status js = Queued \<or> status js = Processing)"
  shows "(status s = Failed \<longrightarrow>
            runStream (pre @ Found s # post) =
              (runStream pre)\<lparr>sent := sent (runStream pre)
                    @ [ErrorEvent (case error s of
                                     Some m \<Rightarrow> if m = [] then ''Job failed'' else m
                                   | None \<Rightarrow> ''Job failed''),
                       DoneSentinel],
                 closed := True\<rparr>)
       \<and> (status s = Completed \<and> result s = Some r \<longrightarrow>
            runStream (pre @ Found s # post) =
              (runStream pre)\<lparr>sent := sent (runStream pre)
                    @ (if success r
                       then (case resultData r of
                               Some (JStr c) \<Rightarrow> if c = [] then [] else [ResultContent c]
                             | Some (JObj kvs) \<Rightarrow> [ResultSummaries (JObj kvs)]
                             | Some (JArr xs) \<Rightarrow> [ResultSummaries (JArr xs)]
                             | _ \<Rightarrow> [])
                       else [])
                    @ [DoneSentinel],
                 closed := True\<rparr>)
       \<and> \<not> closed (runStream pre)
       \<and> set (sent (runStream pre)) \<subseteq> insert (StatusEvent Processing) (range ProgressEvent)"
proof -
  have pre: "list_all pending pre" using assms by (simp add: pending_iff)
  have w: "watching (runStream pre)"
    using pre foldl_pending_watching[OF watching_initial] by (simp add: runStream_def)
  have e: "set (sent (runStream pre)) \<subseteq> insert (StatusEvent Processing) (range ProgressEvent)"
    using pre foldl_pending_sent[OF watching_initial] by (simp add: runStream_def initialStream_def)
  have run: "runStream (pre @ Found s # post) = foldl poll (poll (runStream pre) (Found s)) post"
    by (simp add: runStream_def)
  have f: "status s = Failed \<longrightarrow>
            runStream (pre @ Found s # post) =
              (runStream pre)\<lparr>sent := sent (runStream pre)
                    @ [ErrorEvent (case error s of
                                     Some m \<Rightarrow> if m = [] then ''Job failed'' else m
                                   | None \<Rightarrow> ''Job failed''),
                       DoneSentinel],
                 closed := True\<rparr>"
    using poll_failed[OF w] run
    by (auto simp: closed_foldl_poll failureMessage_def split: option.splits)
  have re: "resultEvents r =
      (if success r
       then (case resultData r of
               Some (JStr c) \<Rightarrow> if c = [] then [] else [ResultContent c]
             | Some (JObj kvs) \<Rightarrow> [ResultSummaries (JObj kvs)]
             | Some (JArr xs) \<Rightarrow> [ResultSummaries (JArr xs)]
             | _ \<Rightarrow> [])
       else [])"
    by (auto simp: resultEvents_def split: option.splits json.splits)
  have c: "status s = Completed \<and> result s = Some r \<longrightarrow>
            runStream (pre @ Found s # post) =
              (runStream pre)\<lparr>sent := sent (runStream pre) @ resultEvents r @ [DoneSentinel],
                               closed := True\<rparr>"
    using poll_completed[OF w] run by (simp add: closed_foldl_poll)
  show ?thesis
    using f c e w unfolding re by (simp add: watching_def)
qed

text \<open>
  A job seen queued, then processing, then completed with a text; one completed without
  success; one that failed with a message; one that failed without.
\<close>

theorem stream_terminates_witness:
  "runStream [Found (sampleStatus\<lparr>status := Queued\<rparr>), Found sampleStatus,
                 Found (sampleStatus\<lparr>status := Completed, result := Some textResult\<rparr>),
                 Found sampleStatus] =
       \<lparr>lastStatus = Some Processing,
        sent = [StatusEvent Processing, ResultContent ''Disorder, counted.'', DoneSentinel],
        closed = True\<rparr>
   \<and> runStream [Found (sampleStatus\<lparr>status := Queued\<rparr>), Found sampleStatus,
                 Found (sampleStatus\<lparr>status := Completed, result := Some failedResult\<rparr>),
                 Found sampleStatus] =
       \<lparr>lastStatus = Some Processing,
        sent = [StatusEvent Processing, DoneSentinel],
        closed = True\<rparr>
   \<and> runStream [Found (sampleStatus\<lparr>status := Queued\<rparr>), Found sampleStatus,
                 Found (sampleStatus\<lparr>status := Failed, error := Some ''All providers failed''\<rparr>),
                 Found sampleStatus] =
       \<lparr>lastStatus = Some Processing,
        sent = [StatusEvent Processing, ErrorEvent ''All providers failed'', DoneSentinel],
        closed = True\<rparr>
   \<and> runStream [Found (sampleStatus\<lparr>status := Queued\<rparr>), Found sampleStatus,
                 Found (sampleStatus\<lparr>status := Failed\<rparr>)] =
       \<lparr>lastStatus = Some Processing,
        sent = [StatusEvent Processing, ErrorEvent ''Job failed'', DoneSentinel],
        closed = True\<rparr>"
proof -
  let ?pre = "[Found (sampleStatus\<lparr>status := Queued\<rparr>), Found sampleStatus]"
  have h: "\<forall>outcome\<in>set ?pre. \<exists>js. outcome = Found js \<and> (status js = Queued \<or> status js = Processing)"
    by (simp add: sampleStatus_def)
  have p: "runStream ?pre = \<lparr>lastStatus = Some Processing, sent = [StatusEvent Processing], closed = False\<rparr>"
    by code_simp
  note t1 = stream_terminates [OF h,
      where s = "sampleStatus\<lparr>status := Completed, result := Some textResult\<rparr>"
        and r = textResult and post = "[Found sampleStatus]"]
  note t2 = stream_terminates [OF h,
      where s = "sampleStatus\<lparr>status := Completed, result := Some failedResult\<rparr>"
        and r = failedResult and post = "[Found sampleStatus]"]
  note t3 = stream_terminates [OF h,
      where s = "sampleStatus\<lparr>status := Failed, error := Some ''All providers failed''\<rparr>"
        and post = "[Found sampleStatus]"]
  note t4 = stream_terminates [OF h,
      where s = "sampleStatus\<lparr>status := Failed\<rparr>" and post = "[]"]
  have r: "success textResult" "resultData textResult = Some (JStr ''Disorder, counted.'')"
      "\<not> success failedResult" "error sampleStatus = None"
    by (simp_all add: textResult_def failedResult_def sampleStatus_def)
  show ?thesis
    using t1 t2 t3 t4 by (simp add: p r)
qed

section \<open>Batch assembler: properties\<close>

lemma buildBatch_invariant:
  assumes "buildBatch gen cache batch t queue = (b, t', q', effects)"
      and "length batch \<le> MAX_BATCH_PAGES"
      and "t = sum_list (map estimatedTokens batch)"
      and "t \<le> MAX_BATCH_TOKENS \<or> length batch \<le> 1"
  shows "length b \<le> MAX_BATCH_PAGES \<and> t' = sum_list (map estimatedTokens b)
         \<and> (t' \<le> MAX_BATCH_TOKENS \<or> length b \<le> 1)"
  using assms
proof (induction queue arbitrary: batch t b t' q' effects)
  case Nil
  then show ?case by auto
next
  case (Cons item queue)
  show ?case
  proof (cases "length batch < MAX_BATCH_PAGES")
    case False
    then show ?thesis using Cons.prems by auto
  next
    case lt: True
    show ?thesis
    proof (cases "alreadyDone gen cache (pageNum item)")
      case True
      then show ?thesis using Cons.IH[of batch t b t' q' effects] Cons.prems lt by auto
    next
      case nd: False
      show ?thesis
      proof (cases "emptyPage item")
        case True
        obtain b0 t0 q0 e0 where r: "buildBatch gen cache batch t queue = (b0, t0, q0, e0)"
          by (cases "buildBatch gen cache batch t queue") auto
        then have "b = b0" "t' = t0" using Cons.prems(1) lt nd True by auto
        then show ?thesis using Cons.IH[OF r] Cons.prems(2,3,4) by auto
      next
        case ne: False
        show ?thesis
        proof (cases "length batch > 0 \<and> t + estimatedTokens item > MAX_BATCH_TOKENS")
          case True
          then show ?thesis using Cons.prems lt nd ne by auto
        next
          case False
          then have r: "buildBatch gen cache (batch @ [item]) (t + estimatedTokens item) queue
                         = (b, t', q', effects)"
            using Cons.prems(1) lt nd ne by auto
          have "t + estimatedTokens item \<le> MAX_BATCH_TOKENS \<or> length (batch @ [item]) \<le> 1"
            using False by auto
          then show ?thesis
            using Cons.IH[OF r] lt Cons.prems(3) by auto
        qed
      qed
    qed
  qed
qed

lemma buildBatch_pages:
  assumes "buildBatch gen cache batch t queue = (b, t', q', effects)"
  shows "(\<forall>x\<in>set b. x \<in> set batch
            \<or> (x \<in> set queue \<and> \<not> alreadyDone gen cache (pageNum x) \<and> \<not> emptyPage x))
       \<and> set batch \<subseteq> set b
       \<and> (\<forall>e\<in>set effects. \<exists>p\<in>set queue. emptyPage p \<and> \<not> alreadyDone gen cache (pageNum p)
              \<and> e = SetPageSummary (pageNum p) placeholderSummary)
       \<and> (\<forall>p\<in>set queue. p \<in> set q' \<or> alreadyDone gen cache (pageNum p)
              \<or> (emptyPage p \<and> SetPageSummary (pageNum p) placeholderSummary \<in> set effects)
              \<or> (\<not> emptyPage p \<and> p \<in> set b))"
  using assms
proof (induction queue arbitrary: batch t b t' q' effects)
  case Nil
  then show ?case by auto
next
  case (Cons item queue)
  show ?case
  proof (cases "length batch < MAX_BATCH_PAGES")
    case False
    then show ?thesis using Cons.prems by auto
  next
    case lt: True
    show ?thesis
    proof (cases "alreadyDone gen cache (pageNum item)")
      case True
      then have r: "buildBatch gen cache batch t queue = (b, t', q', effects)"
        using Cons.prems lt by simp
      show ?thesis using Cons.IH[OF r] True by auto
    next
      case nd: False
      show ?thesis
      proof (cases "emptyPage item")
        case True
        obtain b0 t0 q0 e0 where r: "buildBatch gen cache batch t queue = (b0, t0, q0, e0)"
          by (cases "buildBatch gen cache batch t queue") auto
        then have "b = b0" "t' = t0" "q' = q0"
          "effects = SetPageSummary (pageNum item) placeholderSummary # e0"
          using Cons.prems(1) lt nd True by auto
        then show ?thesis using Cons.IH[OF r] True nd by auto
      next
        case ne: False
        show ?thesis
        proof (cases "length batch > 0 \<and> t + estimatedTokens item > MAX_BATCH_TOKENS")
          case True
          then show ?thesis using Cons.prems lt nd ne by auto
        next
          case False
          then have r: "buildBatch gen cache (batch @ [item]) (t + estimatedTokens item) queue
                         = (b, t', q', effects)"
            using Cons.prems(1) lt nd ne by auto
          show ?thesis using Cons.IH[OF r] nd ne by auto
        qed
      qed
    qed
  qed
qed


lemma buildBatch_from_empty:
  assumes "buildBatch gen cache [] 0 queue = (b, t', q', effects)"
  shows "batchWithinLimits (pagesToProcess gen cache b) \<or> pagesToProcess gen cache b = []"
    and "pagesToProcess gen cache b = b"
    and "\<forall>x\<in>set b. \<not> emptyPage x"
proof -
  have inv: "length b \<le> MAX_BATCH_PAGES \<and> t' = sum_list (map estimatedTokens b)
         \<and> (t' \<le> MAX_BATCH_TOKENS \<or> length b \<le> 1)"
    using buildBatch_invariant[OF assms] by auto
  have pg: "\<forall>x\<in>set b. \<not> alreadyDone gen cache (pageNum x) \<and> \<not> emptyPage x"
    using buildBatch_pages[OF assms] by auto
  then show same: "pagesToProcess gen cache b = b"
    by (simp add: pagesToProcess_def)
  show "\<forall>x\<in>set b. \<not> emptyPage x" using pg by simp
  show "batchWithinLimits (pagesToProcess gen cache b) \<or> pagesToProcess gen cache b = []"
    unfolding same using inv by (cases b) (auto simp: batchWithinLimits_def)
qed

lemma submitEffects_cases:
  "e \<in> set (submitEffects gen cache batch) \<Longrightarrow>
     e = SubmitBatch (pagesToProcess gen cache batch) \<and> pagesToProcess gen cache batch \<noteq> []"
  by (auto simp: submitEffects_def split: if_splits)

lemma drainQueue_batches:
  "SubmitBatch b \<in> set (drainQueue gen cache queue arrivals) \<Longrightarrow>
     b \<noteq> [] \<and> batchWithinLimits b \<and> (\<forall>x\<in>set b. \<not> emptyPage x)"
proof (induction gen cache queue arrivals rule: drainQueue.induct)
  case (1 gen cache queue arrivals)
  show ?case
  proof (cases "queue = []")
    case True
    then show ?thesis using "1.prems" by simp
  next
    case ne: False
    obtain batch t q' effects where r: "buildBatch gen cache [] 0 queue = (batch, t, q', effects)"
      by (cases "buildBatch gen cache [] 0 queue") auto
    have eff: "SubmitBatch b \<notin> set effects"
      using buildBatch_pages[OF r] by auto
    note fe = buildBatch_from_empty[OF r]
    show ?thesis
    proof (cases "length batch > 0")
      case True
      let ?q = "q' @ (case arrivals of [] \<Rightarrow> [] | a # as \<Rightarrow> a)"
      let ?a = "case arrivals of [] \<Rightarrow> [] | a # as \<Rightarrow> as"
      have "SubmitBatch b \<in> set (submitEffects gen cache batch)
            \<or> SubmitBatch b \<in> set (drainQueue gen cache ?q ?a)"
        using "1.prems" ne r True eff by (subst (asm) drainQueue.simps) auto
      then show ?thesis
      proof
        assume "SubmitBatch b \<in> set (submitEffects gen cache batch)"
        then have "b = pagesToProcess gen cache batch" "b \<noteq> []"
          using submitEffects_cases[of "SubmitBatch b" gen cache batch] by auto
        then show ?thesis using fe by auto
      next
        assume "SubmitBatch b \<in> set (drainQueue gen cache ?q ?a)"
        then show ?thesis
          using "1.IH"(1)[of batch "(t, q', effects)" t "(q', effects)" q' effects] ne r True
          by simp
      qed
    next
      case False
      then have "SubmitBatch b \<in> set (drainQueue gen cache q' arrivals)"
        using "1.prems" ne r eff by (subst (asm) drainQueue.simps) auto
      then show ?thesis
        using "1.IH"(2)[of batch "(t, q', effects)" t "(q', effects)" q' effects] ne r False
        by simp
    qed
  qed
qed


lemma drainQueue_step:
  assumes "queue \<noteq> []" and "buildBatch gen cache [] 0 queue = (batch, t, q', effects)"
  shows "drainQueue gen cache queue arrivals =
           (if length batch > 0
            then effects @ submitEffects gen cache batch
                   @ drainQueue gen cache (q' @ (case arrivals of [] \<Rightarrow> [] | a # as \<Rightarrow> a))
                       (case arrivals of [] \<Rightarrow> [] | a # as \<Rightarrow> as)
            else effects @ drainQueue gen cache q' arrivals)"
  using assms by (subst drainQueue.simps) simp


lemma submittedCount_simps [simp]:
  "submittedCount [] = 0"
  "submittedCount (SubmitBatch b # es) = Suc (submittedCount es)"
  "submittedCount (SetPageSummary n t # es) = submittedCount es"
  "submittedCount (xs @ ys) = submittedCount xs + submittedCount ys"
  by (simp_all add: submittedCount_def)

lemma buildBatch_no_submit:
  assumes "buildBatch gen cache batch t queue = (b, t', q', effects)"
  shows "submittedCount effects = 0"
proof -
  have "\<forall>e\<in>set effects. \<exists>n. e = SetPageSummary n placeholderSummary"
    using buildBatch_pages[OF assms] by blast
  then show ?thesis
    by (induction effects) auto
qed

lemma drainQueue_handles:
  "p \<in> set queue
     \<or> p \<in> set (concat (take (submittedCount (drainQueue gen cache queue arrivals)) arrivals)) \<Longrightarrow>
     alreadyDone gen cache (pageNum p)
     \<or> (emptyPage p \<and> SetPageSummary (pageNum p) placeholderSummary
            \<in> set (drainQueue gen cache queue arrivals))
     \<or> (\<not> emptyPage p \<and> (\<exists>b. SubmitBatch b \<in> set (drainQueue gen cache queue arrivals) \<and> p \<in> set b))"
proof (induction gen cache queue arrivals rule: drainQueue.induct)
  case (1 gen cache queue arrivals)
  show ?case
  proof (cases "queue = []")
    case True
    then show ?thesis using "1.prems" by simp
  next
    case ne: False
    obtain batch t q' effects where r: "buildBatch gen cache [] 0 queue = (batch, t, q', effects)"
      by (cases "buildBatch gen cache [] 0 queue") auto
    note step = drainQueue_step[OF ne r, of arrivals]
    note same = buildBatch_from_empty(2)[OF r]
    note nosub = buildBatch_no_submit[OF r]
    have cases: "p \<in> set queue \<Longrightarrow> p \<in> set q' \<or> alreadyDone gen cache (pageNum p)
                \<or> (emptyPage p \<and> SetPageSummary (pageNum p) placeholderSummary \<in> set effects)
                \<or> (\<not> emptyPage p \<and> p \<in> set batch)"
      using buildBatch_pages[OF r] by blast
    let ?q = "q' @ (case arrivals of [] \<Rightarrow> [] | a # as \<Rightarrow> a)"
    let ?a = "case arrivals of [] \<Rightarrow> [] | a # as \<Rightarrow> as"
    show ?thesis
    proof (cases "length batch > 0")
      case True
      have d: "drainQueue gen cache queue arrivals =
          effects @ [SubmitBatch batch] @ drainQueue gen cache ?q ?a"
        using step True same by (auto simp: submitEffects_def)
      have n: "submittedCount (drainQueue gen cache queue arrivals) =
          Suc (submittedCount (drainQueue gen cache ?q ?a))"
        unfolding d using nosub by simp
      have ih: "p \<in> set ?q \<or> p \<in> set (concat (take (submittedCount (drainQueue gen cache ?q ?a)) ?a)) \<Longrightarrow>
         alreadyDone gen cache (pageNum p)
         \<or> (emptyPage p \<and> SetPageSummary (pageNum p) placeholderSummary
                \<in> set (drainQueue gen cache ?q ?a))
         \<or> (\<not> emptyPage p \<and> (\<exists>b. SubmitBatch b \<in> set (drainQueue gen cache ?q ?a) \<and> p \<in> set b))"
        using "1.IH"(1)[of batch "(t, q', effects)" t "(q', effects)" q' effects] ne r True by simp
      have later: "p \<in> set (concat (take (submittedCount (drainQueue gen cache queue arrivals)) arrivals))
          \<Longrightarrow> p \<in> set ?q \<or> p \<in> set (concat (take (submittedCount (drainQueue gen cache ?q ?a)) ?a))"
        unfolding n by (cases arrivals) auto
      from "1.prems" show ?thesis
      proof
        assume "p \<in> set queue"
        from cases[OF this] show ?thesis
        proof (elim disjE)
          assume "p \<in> set q'"
          then have "p \<in> set ?q" by simp
          then have "alreadyDone gen cache (pageNum p)
           \<or> (emptyPage p \<and> SetPageSummary (pageNum p) placeholderSummary
                  \<in> set (drainQueue gen cache ?q ?a))
           \<or> (\<not> emptyPage p \<and> (\<exists>b. SubmitBatch b \<in> set (drainQueue gen cache ?q ?a) \<and> p \<in> set b))"
            using ih by blast
          then show ?thesis unfolding d by auto
        next
          assume "alreadyDone gen cache (pageNum p)"
          then show ?thesis by simp
        next
          assume "emptyPage p \<and> SetPageSummary (pageNum p) placeholderSummary \<in> set effects"
          then show ?thesis unfolding d by simp
        next
          assume "\<not> emptyPage p \<and> p \<in> set batch"
          then show ?thesis unfolding d by auto
        qed
      next
        assume "p \<in> set (concat (take (submittedCount (drainQueue gen cache queue arrivals)) arrivals))"
        from later[OF this] have "alreadyDone gen cache (pageNum p)
         \<or> (emptyPage p \<and> SetPageSummary (pageNum p) placeholderSummary
                \<in> set (drainQueue gen cache ?q ?a))
         \<or> (\<not> emptyPage p \<and> (\<exists>b. SubmitBatch b \<in> set (drainQueue gen cache ?q ?a) \<and> p \<in> set b))"
          using ih by blast
        then show ?thesis unfolding d by auto
      qed
    next
      case False
      have d: "drainQueue gen cache queue arrivals = effects @ drainQueue gen cache q' arrivals"
        using step False by simp
      have n: "submittedCount (drainQueue gen cache queue arrivals) =
          submittedCount (drainQueue gen cache q' arrivals)"
        unfolding d using nosub by simp
      have ih: "p \<in> set q' \<or> p \<in> set (concat (take (submittedCount (drainQueue gen cache q' arrivals)) arrivals)) \<Longrightarrow>
         alreadyDone gen cache (pageNum p)
         \<or> (emptyPage p \<and> SetPageSummary (pageNum p) placeholderSummary
                \<in> set (drainQueue gen cache q' arrivals))
         \<or> (\<not> emptyPage p \<and> (\<exists>b. SubmitBatch b \<in> set (drainQueue gen cache q' arrivals) \<and> p \<in> set b))"
        using "1.IH"(2)[of batch "(t, q', effects)" t "(q', effects)" q' effects] ne r False by simp
      from "1.prems" show ?thesis
      proof
        assume "p \<in> set queue"
        from cases[OF this] show ?thesis
        proof (elim disjE)
          assume "p \<in> set q'"
          then have "alreadyDone gen cache (pageNum p)
           \<or> (emptyPage p \<and> SetPageSummary (pageNum p) placeholderSummary
                  \<in> set (drainQueue gen cache q' arrivals))
           \<or> (\<not> emptyPage p \<and> (\<exists>b. SubmitBatch b \<in> set (drainQueue gen cache q' arrivals) \<and> p \<in> set b))"
            using ih by blast
          then show ?thesis unfolding d by auto
        next
          assume "alreadyDone gen cache (pageNum p)"
          then show ?thesis by simp
        next
          assume "emptyPage p \<and> SetPageSummary (pageNum p) placeholderSummary \<in> set effects"
          then show ?thesis unfolding d by simp
        next
          assume "\<not> emptyPage p \<and> p \<in> set batch"
          then show ?thesis using False by auto
        qed
      next
        assume "p \<in> set (concat (take (submittedCount (drainQueue gen cache queue arrivals)) arrivals))"
        then have "p \<in> set (concat (take (submittedCount (drainQueue gen cache q' arrivals)) arrivals))"
          by (simp only: n)
        then have "alreadyDone gen cache (pageNum p)
         \<or> (emptyPage p \<and> SetPageSummary (pageNum p) placeholderSummary
                \<in> set (drainQueue gen cache q' arrivals))
         \<or> (\<not> emptyPage p \<and> (\<exists>b. SubmitBatch b \<in> set (drainQueue gen cache q' arrivals) \<and> p \<in> set b))"
          using ih by blast
        then show ?thesis unfolding d by auto
      qed
    qed
  qed
qed

lemma filter_dropWhile_not: "filter (\<lambda>c. \<not> P c) (dropWhile P xs) = filter (\<lambda>c. \<not> P c) xs"
  by (induction xs) auto

lemma nonWhitespaceCount_rev: "nonWhitespaceCount (rev s) = nonWhitespaceCount s"
  unfolding nonWhitespaceCount_def by (metis length_rev rev_filter)

lemma nonWhitespaceCount_dropWhile:
  "nonWhitespaceCount (dropWhile isWhitespace s) = nonWhitespaceCount s"
  by (simp add: nonWhitespaceCount_def filter_dropWhile_not)

lemma nonWhitespaceCount_trim: "nonWhitespaceCount (trim s) = nonWhitespaceCount s"
  by (simp add: trim_def nonWhitespaceCount_rev nonWhitespaceCount_dropWhile)

lemma emptyPage_nonWhitespaceCount: "emptyPage p \<Longrightarrow> nonWhitespaceCount (pageText p) < 10"
proof -
  assume e: "emptyPage p"
  have "nonWhitespaceCount (pageText p) = nonWhitespaceCount (trim (pageText p))"
    by (simp add: nonWhitespaceCount_trim)
  also have "\<dots> \<le> length (trim (pageText p))"
    by (simp add: nonWhitespaceCount_def)
  also have "\<dots> < 10"
    using e by (auto simp: emptyPage_def trim_def)
  finally show ?thesis .
qed

lemma longPage_facts:
  "pageNum (longPage n) = n" "estimatedTokens (longPage n) = 13000" "\<not> emptyPage (longPage n)"
  by (simp_all add: longPage_def estimatedTokens_def emptyPage_def trim_def isWhitespace_def)

lemma shortPage_facts:
  "pageNum shortPage = 1" "emptyPage shortPage"
  by (simp_all add: shortPage_def emptyPage_def trim_def isWhitespace_def)


lemma sample_drain:
  "processSummaryQueue False {} Map.empty [shortPage, longPage 2, longPage 3] [] =
     [SetPageSummary 1 placeholderSummary, SubmitBatch [longPage 2], SubmitBatch [longPage 3]]"
proof -
  have b1: "buildBatch {} Map.empty [] 0 [shortPage, longPage 2, longPage 3] =
      ([longPage 2], 13000, [longPage 3], [SetPageSummary 1 placeholderSummary])"
    by (simp add: longPage_facts shortPage_facts alreadyDone_def MAX_BATCH_PAGES_def
        MAX_BATCH_TOKENS_def)
  have b2: "buildBatch {} Map.empty [] 0 [longPage 3] = ([longPage 3], 13000, [], [])"
    by (simp add: longPage_facts alreadyDone_def MAX_BATCH_PAGES_def MAX_BATCH_TOKENS_def)
  have p: "pagesToProcess {} Map.empty [longPage n] = [longPage n]" for n
    by (simp add: pagesToProcess_def alreadyDone_def)
  have d2: "drainQueue {} Map.empty [longPage 3] [] = [SubmitBatch [longPage 3]]"
    using drainQueue_step[OF _ b2, of "[]"] by (simp add: submitEffects_def p)
  show ?thesis
    using drainQueue_step[OF _ b1, of "[]"]
    by (simp add: processSummaryQueue_def submitEffects_def p d2)
qed

lemma hugePage_facts:
  "pageNum hugePage = 7" "estimatedTokens hugePage = 30000" "\<not> emptyPage hugePage"
  by (simp_all add: hugePage_def estimatedTokens_def emptyPage_def trim_def isWhitespace_def)

lemma huge_drain:
  "processSummaryQueue False {} Map.empty [hugePage] [] = [SubmitBatch [hugePage]]"
proof -
  have b: "buildBatch {} Map.empty [] 0 [hugePage] = ([hugePage], 30000, [], [])"
    by (simp add: hugePage_facts alreadyDone_def MAX_BATCH_PAGES_def MAX_BATCH_TOKENS_def)
  have p: "pagesToProcess {} Map.empty [hugePage] = [hugePage]"
    by (simp add: pagesToProcess_def alreadyDone_def)
  show ?thesis
    using drainQueue_step[OF _ b, of "[]"]
    by (simp add: processSummaryQueue_def submitEffects_def p)
qed

text \<open>
  C1: every batch that the drain loop of \<^verbatim>\<open>processSummaryQueue\<close> submits, from any
  queue and with any pages arriving while it runs, is non-empty, has at most
  \<^verbatim>\<open>MAX_BATCH_PAGES\<close> = 20 pages, and has at most \<^verbatim>\<open>MAX_BATCH_TOKENS\<close> = 25000
  estimated tokens in total unless it holds exactly one page. The estimate of a page is
  its length divided by 4, rounded up. The loop makes progress: each page of the queue that
  is neither generating, cached nor empty is in a submitted batch.
\<close>

lemma lateShortPage_facts:
  "pageNum lateShortPage = 9" "emptyPage lateShortPage"
  by (simp_all add: lateShortPage_def emptyPage_def trim_def isWhitespace_def)

lemma late_drain:
  "processSummaryQueue False {} Map.empty [shortPage, longPage 2] [[lateShortPage, longPage 3]] =
     [SetPageSummary 1 placeholderSummary, SubmitBatch [longPage 2],
      SetPageSummary 9 placeholderSummary, SubmitBatch [longPage 3]]"
proof -
  have b1: "buildBatch {} Map.empty [] 0 [shortPage, longPage 2] =
      ([longPage 2], 13000, [], [SetPageSummary 1 placeholderSummary])"
    by (simp add: longPage_facts shortPage_facts alreadyDone_def MAX_BATCH_PAGES_def
        MAX_BATCH_TOKENS_def)
  have b2: "buildBatch {} Map.empty [] 0 [lateShortPage, longPage 3] =
      ([longPage 3], 13000, [], [SetPageSummary 9 placeholderSummary])"
    by (simp add: longPage_facts lateShortPage_facts alreadyDone_def MAX_BATCH_PAGES_def
        MAX_BATCH_TOKENS_def)
  have p: "pagesToProcess {} Map.empty [longPage n] = [longPage n]" for n
    by (simp add: pagesToProcess_def alreadyDone_def)
  have d2: "drainQueue {} Map.empty [lateShortPage, longPage 3] [] =
      [SetPageSummary 9 placeholderSummary, SubmitBatch [longPage 3]]"
    using drainQueue_step[OF _ b2, of "[]"] by (simp add: submitEffects_def p)
  show ?thesis
    using drainQueue_step[OF _ b1, of "[[lateShortPage, longPage 3]]"]
    by (simp add: processSummaryQueue_def submitEffects_def p d2)
qed

text \<open>
  C1: every batch that the drain loop of \<^verbatim>\<open>processSummaryQueue\<close> submits, from any
  queue and with any pages arriving while it runs, is non-empty, has at most
  \<^verbatim>\<open>MAX_BATCH_PAGES\<close> = 20 pages, and has at most \<^verbatim>\<open>MAX_BATCH_TOKENS\<close> = 25000
  estimated tokens in total unless it holds exactly one page. The estimate of a page is
  its length divided by 4, rounded up. The loop makes progress: each page of the queue that
  is neither generating, cached nor empty is in a submitted batch.
\<close>

theorem batches_within_limits:
  "(SubmitBatch b \<in> set (processSummaryQueue isProcessingQueue gen cache queue arrivals) \<longrightarrow>
      b \<noteq> [] \<and> length b \<le> MAX_BATCH_PAGES
      \<and> (sum_list (map estimatedTokens b) \<le> MAX_BATCH_TOKENS \<or> length b = 1))
   \<and> MAX_BATCH_PAGES = 20 \<and> MAX_BATCH_TOKENS = 25000
   \<and> length (pageText p) \<le> 4 * estimatedTokens p
   \<and> 4 * estimatedTokens p < length (pageText p) + 4
   \<and> (\<not> isProcessingQueue \<and> p \<in> set queue \<and> \<not> alreadyDone gen cache (pageNum p)
        \<and> \<not> emptyPage p \<longrightarrow>
        (\<exists>b'. SubmitBatch b' \<in> set (processSummaryQueue isProcessingQueue gen cache queue arrivals)
              \<and> p \<in> set b'))"
proof -
  have a: "SubmitBatch b \<in> set (processSummaryQueue isProcessingQueue gen cache queue arrivals) \<longrightarrow>
      b \<noteq> [] \<and> length b \<le> MAX_BATCH_PAGES
      \<and> (sum_list (map estimatedTokens b) \<le> MAX_BATCH_TOKENS \<or> length b = 1)"
    using drainQueue_batches[of b gen cache queue arrivals]
    by (auto simp: processSummaryQueue_def batchWithinLimits_def split: if_splits)
  have c: "length (pageText p) \<le> 4 * estimatedTokens p
       \<and> 4 * estimatedTokens p < length (pageText p) + 4"
    unfolding estimatedTokens_def by presburger
  have d: "\<not> isProcessingQueue \<and> p \<in> set queue \<and> \<not> alreadyDone gen cache (pageNum p)
        \<and> \<not> emptyPage p \<longrightarrow>
        (\<exists>b'. SubmitBatch b' \<in> set (processSummaryQueue isProcessingQueue gen cache queue arrivals)
              \<and> p \<in> set b')"
    using drainQueue_handles[of p queue gen cache arrivals]
    by (auto simp: processSummaryQueue_def)
  show ?thesis using a c d by (simp add: MAX_BATCH_PAGES_def MAX_BATCH_TOKENS_def)
qed

text \<open>
  Two pages of 13000 estimated tokens each go into two batches (26000 is over the bound),
  after a page too short to be sent; a page of 30000 estimated tokens goes alone.
\<close>

text \<open>
  Two pages of 13000 estimated tokens each go into two batches (26000 is over the bound),
  after a page too short to be sent; a page of 30000 estimated tokens goes alone.
\<close>

theorem batches_within_limits_witness:
  "processSummaryQueue False {} Map.empty [shortPage, longPage 2, longPage 3] [] =
     [SetPageSummary 1 placeholderSummary, SubmitBatch [longPage 2], SubmitBatch [longPage 3]]
   \<and> sum_list (map estimatedTokens [longPage 2]) = 13000
   \<and> sum_list (map estimatedTokens [longPage 2, longPage 3]) = 26000
   \<and> processSummaryQueue False {} Map.empty [hugePage] [] = [SubmitBatch [hugePage]]
   \<and> sum_list (map estimatedTokens [hugePage]) = 30000
   \<and> length [hugePage] = 1"
proof -
  note t1 = batches_within_limits [where b = "[longPage 2]" and isProcessingQueue = False
      and gen = "{}" and cache = Map.empty and queue = "[shortPage, longPage 2, longPage 3]"
      and arrivals = "[]" and p = "longPage 3"]
  note t2 = batches_within_limits [where b = "[hugePage]" and isProcessingQueue = False
      and gen = "{}" and cache = Map.empty and queue = "[hugePage]"
      and arrivals = "[]" and p = hugePage]
  show ?thesis
    using t1 t2 by (simp add: sample_drain huge_drain longPage_facts hugePage_facts)
qed

text \<open>
  C8, as stated, fails: a page with 6 characters that are not whitespace, spread over a
  text whose trimmed length is 11, is sent in a batch.
\<close>

theorem spaced_page_batched_counterexample:
  "nonWhitespaceCount (pageText spacedPage) = 6
   \<and> length (trim (pageText spacedPage)) = 11
   \<and> processSummaryQueue False {} Map.empty [spacedPage] [] = [SubmitBatch [spacedPage]]"
  by code_simp

text \<open>
  C8, amended: the test is on the length of the trimmed text. Each page that is in the queue
  when the drain starts, or is pushed onto it while the drain waits for one of its batches,
  that is neither generating nor cached and whose text is empty or has a trimmed length
  below 10, gets the fixed placeholder summary when the drain loop reaches it, and no
  submitted batch holds such a page. Such a page has fewer than 10 characters that are not
  whitespace; the converse does not hold.
\<close>

theorem empty_pages_short_circuited:
  "(\<not> isProcessingQueue \<and> \<not> alreadyDone gen cache (pageNum p) \<and> emptyPage p
      \<and> (p \<in> set queue
          \<or> p \<in> set (concat (take
                 (length (filter (\<lambda>e. case e of SubmitBatch b \<Rightarrow> True | _ \<Rightarrow> False)
                    (processSummaryQueue isProcessingQueue gen cache queue arrivals)))
                 arrivals))) \<longrightarrow>
      SetPageSummary (pageNum p) placeholderSummary
        \<in> set (processSummaryQueue isProcessingQueue gen cache queue arrivals))
   \<and> (SubmitBatch b \<in> set (processSummaryQueue isProcessingQueue gen cache queue arrivals) \<longrightarrow>
        (\<forall>x\<in>set b. \<not> (pageText x = [] \<or> length (trim (pageText x)) < 10)))
   \<and> (emptyPage p \<longleftrightarrow> pageText p = [] \<or> length (trim (pageText p)) < 10)
   \<and> (emptyPage p \<longrightarrow> nonWhitespaceCount (pageText p) < 10)
   \<and> placeholderSummary = ''No text content available for this page.''"
proof -
  have a: "\<not> isProcessingQueue \<and> \<not> alreadyDone gen cache (pageNum p) \<and> emptyPage p
      \<and> (p \<in> set queue
          \<or> p \<in> set (concat (take (submittedCount
                 (processSummaryQueue isProcessingQueue gen cache queue arrivals)) arrivals))) \<longrightarrow>
      SetPageSummary (pageNum p) placeholderSummary
        \<in> set (processSummaryQueue isProcessingQueue gen cache queue arrivals)"
  proof (cases "isProcessingQueue \<or> queue = []")
    case True
    then show ?thesis by (auto simp: processSummaryQueue_def)
  next
    case False
    then have "processSummaryQueue isProcessingQueue gen cache queue arrivals =
        drainQueue gen cache queue arrivals"
      by (simp add: processSummaryQueue_def)
    then show ?thesis
      using drainQueue_handles[of p queue gen cache arrivals] by (simp only:) blast
  qed
  have b: "SubmitBatch b \<in> set (processSummaryQueue isProcessingQueue gen cache queue arrivals) \<longrightarrow>
        (\<forall>x\<in>set b. \<not> (pageText x = [] \<or> length (trim (pageText x)) < 10))"
    using drainQueue_batches[of b gen cache queue arrivals]
    by (auto simp: processSummaryQueue_def emptyPage_def split: if_splits)
  note a' = a[unfolded submittedCount_def]
  have c: "emptyPage p \<longleftrightarrow> pageText p = [] \<or> length (trim (pageText p)) < 10"
    by (simp add: emptyPage_def)
  have d: "placeholderSummary = ''No text content available for this page.''"
    by (simp add: placeholderSummary_def)
  from a' b c d emptyPage_nonWhitespaceCount[of p] show ?thesis
    by (intro conjI impI) blast+
qed

text \<open>
  The page \<^verbatim>\<open>"short"\<close> of the queue and a short page pushed during the first batch
  both get the placeholder, and the batches hold the other pages.
\<close>

theorem empty_pages_short_circuited_witness:
  "emptyPage shortPage \<and> emptyPage lateShortPage
   \<and> processSummaryQueue False {} Map.empty [shortPage, longPage 2] [[lateShortPage, longPage 3]] =
     [SetPageSummary 1 placeholderSummary, SubmitBatch [longPage 2],
      SetPageSummary 9 placeholderSummary, SubmitBatch [longPage 3]]
   \<and> lateShortPage \<in> set (concat (take 2 [[lateShortPage, longPage 3]]))
   \<and> \<not> emptyPage (longPage 2) \<and> \<not> emptyPage (longPage 3)"
proof -
  note t = empty_pages_short_circuited [where p = lateShortPage and isProcessingQueue = False
      and gen = "{}" and cache = Map.empty and queue = "[shortPage, longPage 2]"
      and arrivals = "[[lateShortPage, longPage 3]]" and b = "[longPage 3]"]
  show ?thesis
    using t by (simp add: late_drain longPage_facts shortPage_facts lateShortPage_facts)
qed

text \<open>
  C9, as stated, fails: for an empty response, which is not JSON, no page gets a summary,
  the first page included.
\<close>

theorem empty_response_no_summary_counterexample:
  "sampleParse (jsonText []) = None \<and> distributeSummaries sampleParse twoPages [] = []"
  by code_simp

text \<open>
  C9, amended: when the response text, trimmed and stripped of its code fence, is not
  parseable as JSON, the assembler writes the trimmed response text as the summary of the
  first page of the batch, if that text is not empty, and writes nothing else: the other
  pages get no summary, no batch is submitted again and no error is raised. When the
  trimmed text is empty it writes nothing at all.
\<close>

theorem unparseable_batch_first_page_only:
  assumes "parse (jsonText fullSummary) = None"
  shows "(pages = p # ps \<and> trim fullSummary \<noteq> [] \<longrightarrow>
            distributeSummaries parse pages fullSummary =
              [SetPageSummary (pageNum p) (trim fullSummary)])
       \<and> (pages = [] \<or> trim fullSummary = [] \<longrightarrow> distributeSummaries parse pages fullSummary = [])"
  using assms by (auto simp: distributeSummaries_def parseFallback_def split: list.splits)

text \<open>A response in plain prose, for a batch of two pages.\<close>

theorem unparseable_batch_first_page_only_witness:
  "sampleParse (jsonText '' Both pages introduce the document. '') = None
   \<and> distributeSummaries sampleParse twoPages '' Both pages introduce the document. '' =
       [SetPageSummary 1 ''Both pages introduce the document.'']"
proof -
  have h: "sampleParse (jsonText '' Both pages introduce the document. '') = None"
    by code_simp
  have p: "twoPages = \<lparr>pageNum = 1, pageText = ''The first page of the document.''\<rparr>
                # [\<lparr>pageNum = 2, pageText = ''The second page of the document.''\<rparr>]"
    by (simp add: twoPages_def)
  have t: "trim '' Both pages introduce the document. '' = ''Both pages introduce the document.''"
    by code_simp
  note u = unparseable_batch_first_page_only [where parse = sampleParse
      and fullSummary = "'' Both pages introduce the document. ''" and pages = twoPages
      and p = "\<lparr>pageNum = 1, pageText = ''The first page of the document.''\<rparr>"
      and ps = "[\<lparr>pageNum = 2, pageText = ''The second page of the document.''\<rparr>]", OF h]
  show ?thesis using h u p t by simp
qed

end
